theory Spec2Isabelle
  imports Main "HOL-Library.Log_Nat"
begin

section \<open>JavaScript strings\<close>

text \<open>
  A JavaScript string is modelled as a \<^typ>\<open>string\<close>, one \<^typ>\<open>char\<close> per code unit. A
  \<^typ>\<open>char\<close> holds the code units \<open>U+0000\<close> to \<open>U+00FF\<close> (Basic Latin and the Latin-1
  Supplement); the character classes and case mappings below are those of ECMAScript on
  that range.
\<close>

definition is_ws :: "char \<Rightarrow> bool" where
  \<comment> \<open>WhiteSpace and LineTerminator of ECMAScript below \<open>U+0100\<close>: tab, line feed, vertical
      tab, form feed, carriage return, space and the no-break space \<open>U+00A0\<close>. It is what
      \<open>trim\<close>, \<open>Number\<close> and \<open>parseFloat\<close> strip and what \<open>\s\<close> matches.\<close>
  "is_ws c = (c = CHR '' '' \<or> c = CHR 0x09 \<or> c = CHR 0x0A \<or> c = CHR 0x0B
              \<or> c = CHR 0x0C \<or> c = CHR 0x0D \<or> c = CHR 0xA0)"

definition trim :: "string \<Rightarrow> string" where
  \<comment> \<open>\<open>String.prototype.trim\<close>\<close>
  "trim s = rev (dropWhile is_ws (rev (dropWhile is_ws s)))"

definition toUpperCase_char :: "char \<Rightarrow> char" where
  \<comment> \<open>the upper-case form of a code unit that has one in the range: \<open>a-z\<close>, and
      \<open>U+00E0\<close> to \<open>U+00FE\<close> but the division sign \<open>U+00F7\<close>\<close>
  "toUpperCase_char c =
     (let n = (of_char c :: nat) in
      if (97 \<le> n \<and> n \<le> 122) \<or> (224 \<le> n \<and> n \<le> 254 \<and> n \<noteq> 247) then char_of (n - 32) else c)"

definition toLowerCase_char :: "char \<Rightarrow> char" where
  \<comment> \<open>the lower-case form of a code unit: \<open>A-Z\<close>, and \<open>U+00C0\<close> to \<open>U+00DE\<close> but the
      multiplication sign \<open>U+00D7\<close>\<close>
  "toLowerCase_char c =
     (let n = (of_char c :: nat) in
      if (65 \<le> n \<and> n \<le> 90) \<or> (192 \<le> n \<and> n \<le> 222 \<and> n \<noteq> 215) then char_of (n + 32) else c)"

definition toUpperCase :: "string \<Rightarrow> string" where
  \<comment> \<open>\<open>String.prototype.toUpperCase\<close>. The sharp s \<open>U+00DF\<close> becomes the two code units
      \<open>SS\<close>. The upper-case forms of \<open>U+00B5\<close> and \<open>U+00FF\<close> are \<open>U+039C\<close> and \<open>U+0178\<close>,
      which no \<^typ>\<open>char\<close> holds: these two code units are kept as they are.\<close>
  "toUpperCase s = concat (map (\<lambda>c. if c = CHR 0xDF then ''SS'' else [toUpperCase_char c]) s)"

definition toLowerCase :: "string \<Rightarrow> string" where
  \<comment> \<open>\<open>String.prototype.toLowerCase\<close>\<close>
  "toLowerCase s = map toLowerCase_char s"

definition startsWith :: "string \<Rightarrow> string \<Rightarrow> bool" where
  "startsWith s p = (take (length p) s = p)"

definition endsWith :: "string \<Rightarrow> string \<Rightarrow> bool" where
  "endsWith s p = (length p \<le> length s \<and> drop (length s - length p) s = p)"

definition slice_from :: "nat \<Rightarrow> string \<Rightarrow> string" where
  \<comment> \<open>\<open>s.slice(n)\<close> for \<open>n \<ge> 0\<close>\<close>
  "slice_from n s = drop n s"

definition slice_last :: "nat \<Rightarrow> string \<Rightarrow> string" where
  \<comment> \<open>\<open>s.slice(-n)\<close>: the last \<open>n\<close> code units, the whole string when it is shorter\<close>
  "slice_last n s = drop (length s - n) s"

fun split_on :: "char \<Rightarrow> string \<Rightarrow> string list" where
  \<comment> \<open>\<open>s.split(c)\<close> for a one-character separator: never the empty list\<close>
  "split_on c [] = [[]]"
| "split_on c (x # xs) =
     (if x = c then [] # split_on c xs
      else (case split_on c xs of
              [] \<Rightarrow> [[x]]
            | p # ps \<Rightarrow> (x # p) # ps))"

fun join :: "string \<Rightarrow> string list \<Rightarrow> string" where
  \<comment> \<open>\<open>parts.join(sep)\<close>\<close>
  "join sep [] = []"
| "join sep [p] = p"
| "join sep (p # q # ps) = p @ sep @ join sep (q # ps)"

section \<open>Colour codec of the xlsx-object variant\<close>

text \<open>
  The colour object of the xlsx library: the packed colour under the key \<open>rgb\<close> or \<open>RGB\<close>.
  An absent key is \<open>None\<close>.
\<close>

record xlsx_color =
  rgb :: "string option"
  RGB :: "string option"

definition truthy_str :: "string option \<Rightarrow> bool" where
  \<comment> \<open>truthiness of a value that is a string, \<open>undefined\<close> or \<open>null\<close>\<close>
  "truthy_str v = (case v of None \<Rightarrow> False | Some s \<Rightarrow> s \<noteq> [])"

definition xlsxColorToCSS :: "xlsx_color option \<Rightarrow> string option" where
  "xlsxColorToCSS color =
     (case color of
        None \<Rightarrow> None
      | Some col \<Rightarrow>
          (let v = (if truthy_str (rgb col) then rgb col else RGB col) in
           if \<not> truthy_str v then None
           else (let s = the v;
                     hex = (if length s = 8 then slice_from 2 s else s)
                 in Some (''#'' @ slice_last 6 hex))))"

definition cssColorToXlsx :: "string \<Rightarrow> xlsx_color option" where
  "cssColorToXlsx color =
     (if color = [] then None
      else (let n0 = trim color;
                n1 = (if startsWith n0 ''#'' then slice_from 1 n0 else n0);
                n2 = (if length n1 = 3 then concat (map (\<lambda>ch. [ch, ch]) n1) else n1)
            in if length n2 \<noteq> 6 then None
               else Some \<lparr> rgb = Some (''FF'' @ toUpperCase n2), RGB = None \<rparr>))"

definition is_hex_digit :: "char \<Rightarrow> bool" where
  "is_hex_digit c =
     (let n = (of_char c :: nat) in
      (48 \<le> n \<and> n \<le> 57) \<or> (65 \<le> n \<and> n \<le> 70) \<or> (97 \<le> n \<and> n \<le> 102))"

definition double_digits :: "string \<Rightarrow> string" where
  \<comment> \<open>the 6-digit expansion of a 3-digit colour: each digit doubled\<close>
  "double_digits ds = concat (map (\<lambda>ch. [ch, ch]) ds)"

definition canonical_hex :: "string \<Rightarrow> string" where
  \<comment> \<open>the 6-digit canonical form of the digits of a CSS hex colour, in the case the codec writes\<close>
  "canonical_hex ds =
     ''#'' @ toUpperCase (if length ds = 3 then double_digits ds else ds)"

section \<open>Plain objects used as dictionaries\<close>

text \<open>
  A plain object with string values is the list of its own enumerable properties in the
  order \<open>Object.entries\<close> reports them: the array-index keys in ascending numeric order
  first, then the other keys in the order of their creation. Its prototype is
  \<open>Object.prototype\<close>, so an assignment to the key \<open>__proto__\<close> runs the inherited
  setter, which ignores a string and creates no property.
\<close>

type_synonym js_object = "(string \<times> string) list"

definition is_digit :: "char \<Rightarrow> bool" where
  "is_digit c = (let n = (of_char c :: nat) in 48 \<le> n \<and> n \<le> 57)"

definition digit_val :: "char \<Rightarrow> int" where
  "digit_val c = of_char c - 48"

definition digits_value :: "string \<Rightarrow> int" where
  "digits_value ds = foldl (\<lambda>acc c. 10 * acc + digit_val c) 0 ds"

definition is_array_index :: "string \<Rightarrow> bool" where
  \<comment> \<open>a canonical numeric string of an integer below \<open>2^32 - 1\<close>\<close>
  "is_array_index k =
     (case k of
        [] \<Rightarrow> False
      | c # cs \<Rightarrow> list_all is_digit k \<and> (if c = CHR ''0'' then cs = [] else True)
                 \<and> digits_value k < 4294967295)"

fun insert_index :: "string \<Rightarrow> string \<Rightarrow> js_object \<Rightarrow> js_object" where
  \<comment> \<open>a new array-index key takes its numeric place among the array-index keys\<close>
  "insert_index k v [] = [(k, v)]"
| "insert_index k v ((k', v') # rest) =
     (if is_array_index k' \<and> digits_value k' < digits_value k
      then (k', v') # insert_index k v rest
      else (k, v) # (k', v') # rest)"

definition has_own :: "js_object \<Rightarrow> string \<Rightarrow> bool" where
  "has_own obj k = (map_of obj k \<noteq> None)"

definition js_get :: "js_object \<Rightarrow> string \<Rightarrow> string option" where
  \<comment> \<open>\<open>obj[k]\<close> for a key that \<open>Object.prototype\<close> does not define: \<open>None\<close> is \<open>undefined\<close>\<close>
  "js_get obj k = map_of obj k"

definition js_set :: "js_object \<Rightarrow> string \<Rightarrow> string \<Rightarrow> js_object" where
  \<comment> \<open>\<open>obj[k] = v\<close> with \<open>v\<close> a string\<close>
  "js_set obj k v =
     (if k = ''__proto__'' then obj
      else if has_own obj k then map (\<lambda>(k', v'). if k' = k then (k', v) else (k', v')) obj
      else if is_array_index k then insert_index k v obj
      else obj @ [(k, v)])"

section \<open>Style string algebra\<close>

definition nth_opt :: "'a list \<Rightarrow> nat \<Rightarrow> 'a option" where
  \<comment> \<open>an array read, or a destructured element: \<open>None\<close> is \<open>undefined\<close>\<close>
  "nth_opt xs i = (if i < length xs then Some (xs ! i) else None)"

definition style_segments :: "string \<Rightarrow> string list" where
  \<comment> \<open>\<open>.split(';').map(part => part.trim()).filter(Boolean)\<close>\<close>
  "style_segments styleString =
     filter (\<lambda>part. part \<noteq> []) (map trim (split_on CHR '';'' styleString))"

definition segment_fields :: "string \<Rightarrow> string option \<times> string option" where
  \<comment> \<open>\<open>const [prop, value] = part.split(':').map(p => p && p.trim())\<close>\<close>
  "segment_fields part =
     (let ps = map trim (split_on CHR '':'' part) in (nth_opt ps 0, nth_opt ps 1))"

definition parseStyleString :: "string \<Rightarrow> js_object" where
  "parseStyleString styleString =
     foldl (\<lambda>acc part.
              (case segment_fields part of
                 (prop, value) \<Rightarrow>
                   if truthy_str prop \<and> truthy_str value
                   then js_set acc (the prop) (the value) else acc))
       [] (style_segments styleString)"

definition serialize :: "js_object \<Rightarrow> string" where
  \<comment> \<open>\<open>Object.entries(merged).map(([k, v]) => `${k}: ${v}`).join('; ')\<close>\<close>
  "serialize merged = join ''; '' (map (\<lambda>(k, v). k @ '': '' @ v) merged)"

definition mergeStyleStrings :: "string \<Rightarrow> js_object \<Rightarrow> string" where
  "mergeStyleStrings existing updates =
     serialize (foldl (\<lambda>merged (key, value). js_set merged key value)
                  (parseStyleString existing) updates)"
subsection \<open>The parse operation in the words of the specification\<close>

text \<open>
  The description of the parse is written here with \<open>takeWhile\<close> and \<open>dropWhile\<close> alone,
  without \<open>split\<close>, \<open>trim\<close>, the destructuring and the object of the program. A style
  string is cut at its semicolons; each piece is stripped of the whitespace around it and
  the empty ones are dropped. In a segment the property is the stripped text before the
  first colon, and the value is the stripped text between the first colon and the second
  one (or the end of the segment). A segment declares something when it has a colon, a
  property and a value.
\<close>

definition spec_strip :: "string \<Rightarrow> string" where
  \<comment> \<open>the text from its first to its last character that is not whitespace\<close>
  "spec_strip t =
     (let u = dropWhile is_ws t in take (length u - length (takeWhile is_ws (rev u))) u)"

function spec_pieces :: "char \<Rightarrow> string \<Rightarrow> string list" where
  \<comment> \<open>the texts between the occurrences of a separator\<close>
  "spec_pieces sep s =
     (case dropWhile (\<lambda>c. c \<noteq> sep) s of
        [] \<Rightarrow> [s]
      | _ # rest \<Rightarrow> takeWhile (\<lambda>c. c \<noteq> sep) s # spec_pieces sep rest)"
  by pat_completeness auto

termination
proof (relation "measure (\<lambda>(sep, s). length s)")
  show "wf (measure (\<lambda>(sep, s). length s))" by simp
next
  fix sep :: char and s :: string and x rest
  assume "dropWhile (\<lambda>c. c \<noteq> sep) s = x # rest"
  then have "length (x # rest) \<le> length s"
    by (metis length_dropWhile_le)
  then show "((sep, rest), (sep, s)) \<in> measure (\<lambda>(sep, s). length s)" by simp
qed

declare spec_pieces.simps [simp del]

definition spec_segments :: "string \<Rightarrow> string list" where
  "spec_segments s = filter (\<lambda>t. t \<noteq> []) (map spec_strip (spec_pieces (CHR '';'') s))"

definition before_colon :: "string \<Rightarrow> string" where
  "before_colon t = takeWhile (\<lambda>c. c \<noteq> CHR '':'') t"

definition after_colon :: "string \<Rightarrow> string option" where
  \<comment> \<open>the text after the first colon, \<open>None\<close> without a colon\<close>
  "after_colon t =
     (case dropWhile (\<lambda>c. c \<noteq> CHR '':'') t of [] \<Rightarrow> None | _ # rest \<Rightarrow> Some rest)"

definition spec_segment :: "string \<Rightarrow> (string \<times> string) option" where
  \<comment> \<open>the property and the value a segment declares\<close>
  "spec_segment part =
     (case after_colon part of
        None \<Rightarrow> None
      | Some rest \<Rightarrow>
          (let prop = spec_strip (before_colon part); value = spec_strip (before_colon rest)
           in if prop = [] \<or> value = [] then None else Some (prop, value)))"

definition spec_declarations :: "string \<Rightarrow> (string \<times> string) list" where
  \<comment> \<open>the declarations of a style string, in the order they are written\<close>
  "spec_declarations s = List.map_filter spec_segment (spec_segments s)"

definition spec_parse :: "string \<Rightarrow> (string \<rightharpoonup> string)" where
  \<comment> \<open>the property map: a later declaration of a property overwrites an earlier one\<close>
  "spec_parse s = foldl (\<lambda>m (p, v). m(p \<mapsto> v)) Map.empty (spec_declarations s)"

definition spec_values :: "string \<Rightarrow> string \<Rightarrow> string list" where
  \<comment> \<open>the values a style string declares for a property, in order\<close>
  "spec_values k s = map snd (filter (\<lambda>d. fst d = k) (spec_declarations s))"

text \<open>
  A property map that a style string can carry: distinct keys; keys and values non-empty,
  without surrounding whitespace, without \<open>;\<close> and \<open>:\<close>; no key \<open>__proto__\<close>.
\<close>

definition clean_text :: "string \<Rightarrow> bool" where
  "clean_text t =
     (t \<noteq> [] \<and> \<not> is_ws (hd t) \<and> \<not> is_ws (last t) \<and> CHR '';'' \<notin> set t \<and> CHR '':'' \<notin> set t)"

definition clean_map :: "js_object \<Rightarrow> bool" where
  "clean_map m =
     (distinct (map fst m) \<and>
      list_all (\<lambda>(k, v). clean_text k \<and> clean_text v \<and> k \<noteq> ''__proto__'') m)"

section \<open>Font resolution\<close>

datatype js_error = TypeError

definition quoted :: "string \<Rightarrow> string" where
  \<comment> \<open>the text between two double-quote characters, as in the literal \<open>'"Inter"'\<close>\<close>
  "quoted s = CHR 0x22 # s @ [CHR 0x22]"

definition FONT_FALLBACKS :: "(string \<times> string list) list" where
  "FONT_FALLBACKS =
     [(''Calibri'', [quoted ''Carlito'', quoted ''Inter'', quoted ''Noto Sans'',
                     quoted ''Helvetica Neue'', ''Arial'', ''sans-serif'']),
      (''Segoe UI'', [quoted ''Inter'', quoted ''Noto Sans'', quoted ''Helvetica Neue'',
                      ''Arial'', ''sans-serif''])]"

definition DEFAULT_FONT_FALLBACKS :: "string list" where
  "DEFAULT_FONT_FALLBACKS =
     [quoted ''Inter'', quoted ''Noto Sans'', quoted ''Helvetica Neue'', ''Arial'', ''sans-serif'']"

definition Object_prototype_keys :: "string list" where
  \<comment> \<open>the properties every plain object inherits; each holds a function or an object\<close>
  "Object_prototype_keys =
     [''constructor'', ''hasOwnProperty'', ''isPrototypeOf'', ''propertyIsEnumerable'',
      ''toLocaleString'', ''toString'', ''valueOf'', ''__defineGetter__'', ''__defineSetter__'',
      ''__lookupGetter__'', ''__lookupSetter__'', ''__proto__'']"

definition is_quote :: "char \<Rightarrow> bool" where
  "is_quote c = (c = CHR 0x27 \<or> c = CHR 0x22)"

definition normalizeFontName :: "string \<Rightarrow> string" where
  \<comment> \<open>\<open>name.replace(/^['"]|['"]$/g, '').trim()\<close>: one quote off the start, one off the end\<close>
  "normalizeFontName name =
     (let s1 = (case name of [] \<Rightarrow> [] | c # cs \<Rightarrow> if is_quote c then cs else name);
          s2 = (if s1 = [] then [] else if is_quote (last s1) then butlast s1 else s1)
      in trim s2)"

fun filter_seen :: "string list \<Rightarrow> string list \<Rightarrow> string list" where
  \<comment> \<open>the \<open>filter\<close> callback with its \<open>seen\<close> set: a part is kept when its lower-case
      form has not been seen\<close>
  "filter_seen seen [] = []"
| "filter_seen seen (part # parts) =
     (let key = toLowerCase part in
      if key \<in> set seen then filter_seen seen parts
      else part # filter_seen (key # seen) parts)"

definition buildFontFamily_parts :: "string \<Rightarrow> js_error + string list" where
  \<comment> \<open>\<open>buildFontFamily\<close> up to the array that is joined. A name that \<open>FONT_FALLBACKS\<close>
      inherits from \<open>Object.prototype\<close> reads a value that is truthy and not iterable, and
      the spread throws.\<close>
  "buildFontFamily_parts name =
     (let n = normalizeFontName name;
          primary = (if n = [] then ''Segoe UI'' else n);
          primaryToken = (if list_ex is_ws primary then quoted primary else primary)
      in case map_of FONT_FALLBACKS primary of
           Some fallbacks \<Rightarrow> Inr (filter_seen [] (primaryToken # fallbacks))
         | None \<Rightarrow>
             if primary \<in> set Object_prototype_keys then Inl TypeError
             else Inr (filter_seen [] (primaryToken # DEFAULT_FONT_FALLBACKS)))"

definition buildFontFamily :: "string \<Rightarrow> js_error + string" where
  "buildFontFamily name =
     (case buildFontFamily_parts name of
        Inl e \<Rightarrow> Inl e
      | Inr parts \<Rightarrow> Inr (join '', '' parts))"

definition family_name :: "string \<Rightarrow> string" where
  \<comment> \<open>the family an entry of a font-family list names, compared without case: the entry
      without its quotes, in lower case\<close>
  "family_name part = toLowerCase (normalizeFontName part)"

section \<open>JavaScript numbers\<close>

text \<open>
  A Number is an IEEE 754 double: a finite value (a rational here), an infinity or NaN.
  Every arithmetic operation computes the exact result and rounds it to the nearest
  double, ties to even, and overflows to an infinity. The sign of zero is not modelled
  (the program never divides by zero and prints no zero with a sign).
\<close>

datatype number = NaN | PosInf | NegInf | Fin rat

definition pow2 :: "int \<Rightarrow> rat" where
  "pow2 e = 2 powi e"

definition rat_exponent :: "rat \<Rightarrow> int" where
  \<comment> \<open>for \<open>x \<noteq> 0\<close>, the \<open>e\<close> with \<open>2^e \<le> |x| < 2^(e+1)\<close>\<close>
  "rat_exponent x =
     (case quotient_of \<bar>x\<bar> of
        (a, b) \<Rightarrow> (let d = bitlen a - bitlen b in if pow2 d \<le> \<bar>x\<bar> then d else d - 1))"

definition round_half_even :: "rat \<Rightarrow> int" where
  "round_half_even x =
     (let f = \<lfloor>x\<rfloor>; r = x - of_int f in
      if r < 1 / 2 then f else if 1 / 2 < r then f + 1 else if even f then f else f + 1)"

definition fl :: "rat \<Rightarrow> number" where
  \<comment> \<open>rounding of an exact result to a double: 53 significant bits, exponents from
      \<open>-1022\<close> (below it the subnormal spacing \<open>2^-1074\<close>) to \<open>1023\<close>\<close>
  "fl x =
     (if x = 0 then Fin 0
      else (let e = max (rat_exponent x) (- 1022);
                q = pow2 (e - 52);
                y = of_int (round_half_even (x / q)) * q
            in if 2 ^ 1024 \<le> \<bar>y\<bar> then (if 0 < y then PosInf else NegInf) else Fin y))"

fun num_neg :: "number \<Rightarrow> number" where
  "num_neg NaN = NaN"
| "num_neg PosInf = NegInf"
| "num_neg NegInf = PosInf"
| "num_neg (Fin x) = Fin (- x)"

definition inf_of_sign :: "bool \<Rightarrow> number" where
  "inf_of_sign positive = (if positive then PosInf else NegInf)"

fun num_mul :: "number \<Rightarrow> number \<Rightarrow> number" where
  \<comment> \<open>\<open>a * b\<close>\<close>
  "num_mul NaN b = NaN"
| "num_mul a NaN = NaN"
| "num_mul (Fin x) (Fin y) = fl (x * y)"
| "num_mul (Fin x) PosInf = (if x = 0 then NaN else inf_of_sign (0 < x))"
| "num_mul (Fin x) NegInf = (if x = 0 then NaN else inf_of_sign (x < 0))"
| "num_mul PosInf (Fin y) = (if y = 0 then NaN else inf_of_sign (0 < y))"
| "num_mul NegInf (Fin y) = (if y = 0 then NaN else inf_of_sign (y < 0))"
| "num_mul PosInf PosInf = PosInf"
| "num_mul PosInf NegInf = NegInf"
| "num_mul NegInf PosInf = NegInf"
| "num_mul NegInf NegInf = PosInf"

fun num_div :: "number \<Rightarrow> number \<Rightarrow> number" where
  \<comment> \<open>\<open>a / b\<close>; a zero divisor counts as \<open>+0\<close>\<close>
  "num_div NaN b = NaN"
| "num_div a NaN = NaN"
| "num_div (Fin x) (Fin y) =
     (if y = 0 then (if x = 0 then NaN else inf_of_sign (0 < x)) else fl (x / y))"
| "num_div (Fin x) PosInf = Fin 0"
| "num_div (Fin x) NegInf = Fin 0"
| "num_div PosInf (Fin y) = inf_of_sign (0 \<le> y)"
| "num_div NegInf (Fin y) = inf_of_sign (y < 0)"
| "num_div PosInf PosInf = NaN"
| "num_div PosInf NegInf = NaN"
| "num_div NegInf PosInf = NaN"
| "num_div NegInf NegInf = NaN"

fun isFinite :: "number \<Rightarrow> bool" where
  \<comment> \<open>\<open>Number.isFinite\<close> on a Number\<close>
  "isFinite (Fin x) = True"
| "isFinite v = False"

fun Math_round :: "number \<Rightarrow> number" where
  \<comment> \<open>\<open>Math.round\<close>: the nearest integer, a tie going to the larger one: \<open>floor(x + 0.5)\<close>\<close>
  "Math_round (Fin x) = Fin (of_int \<lfloor>x + 1 / 2\<rfloor>)"
| "Math_round v = v"

section \<open>Unit codec\<close>

definition PX_PER_POINT :: number where
  "PX_PER_POINT = num_div (Fin 4) (Fin 3)"

definition PT_PER_PX :: number where
  "PT_PER_PX = num_div (Fin 1) PX_PER_POINT"

definition toFixedNumber :: "number \<Rightarrow> number option" where
  \<comment> \<open>every call leaves \<open>decimals\<close> at its default 2, so \<open>factor = 10 ** 2 = 100\<close>;
      \<open>None\<close> is \<open>null\<close>\<close>
  "toFixedNumber v =
     (if \<not> isFinite v then None
      else (let factor = Fin 100 in Some (num_div (Math_round (num_mul v factor)) factor)))"

definition ptToPx :: "number \<Rightarrow> number option" where
  "ptToPx sizePt =
     (if \<not> isFinite sizePt then None else toFixedNumber (num_mul sizePt PX_PER_POINT))"

definition pxToPt :: "number \<Rightarrow> number option" where
  "pxToPt sizePx =
     (if \<not> isFinite sizePx then None else toFixedNumber (num_mul sizePx PT_PER_PX))"

definition pxToPt_opt :: "number option \<Rightarrow> number option" where
  \<comment> \<open>\<open>pxToPt\<close> applied to a value that may be \<open>null\<close>: \<open>Number.isFinite(null)\<close> is false\<close>
  "pxToPt_opt sizePx = (case sizePx of None \<Rightarrow> None | Some px \<Rightarrow> pxToPt px)"

definition round_half_away :: "rat \<Rightarrow> int" where
  \<comment> \<open>rounding half away from zero, the rule the specification names:
      \<open>sign(x) * floor(|x| + 1/2)\<close>\<close>
  "round_half_away x = (if x < 0 then - \<lfloor>\<bar>x\<bar> + 1 / 2\<rfloor> else \<lfloor>\<bar>x\<bar> + 1 / 2\<rfloor>)"

definition roundTrip :: "number \<Rightarrow> number option" where
  \<comment> \<open>the conversion pair: \<open>pxToPt(ptToPx(p))\<close>\<close>
  "roundTrip p = pxToPt_opt (ptToPx p)"

definition roundTrip_opt :: "number option \<Rightarrow> number option" where
  \<comment> \<open>the pair applied to the result of an earlier conversion, which may be \<open>null\<close>\<close>
  "roundTrip_opt p = (case p of None \<Rightarrow> None | Some v \<Rightarrow> roundTrip v)"

section \<open>Parsing a number out of a string\<close>

definition scan_exponent :: "string \<Rightarrow> int \<times> string" where
  \<comment> \<open>an ExponentPart at the head of the text: its value and what follows it; without
      a digit after \<open>e\<close> and the sign there is no exponent and nothing is consumed\<close>
  "scan_exponent r =
     (case r of
        [] \<Rightarrow> (0, r)
      | c # r1 \<Rightarrow>
          if c = CHR ''e'' \<or> c = CHR ''E'' then
            (let negative = (r1 \<noteq> [] \<and> hd r1 = CHR ''-'');
                 signed = (r1 \<noteq> [] \<and> (hd r1 = CHR ''-'' \<or> hd r1 = CHR ''+''));
                 r2 = (if signed then tl r1 else r1);
                 ds = takeWhile is_digit r2
             in if ds = [] then (0, r)
                else ((if negative then - digits_value ds else digits_value ds),
                      dropWhile is_digit r2))
          else (0, r))"

definition scan_mantissa :: "string \<Rightarrow> string \<times> string \<times> string" where
  \<comment> \<open>digits, then an optional point and digits, at the head of the text: the integer
      digits, the fraction digits and what follows them\<close>
  "scan_mantissa u =
     (let ip = takeWhile is_digit u;
          r1 = dropWhile is_digit u;
          has_dot = (r1 \<noteq> [] \<and> hd r1 = CHR ''.'');
          fp = (if has_dot then takeWhile is_digit (tl r1) else []);
          r2 = (if has_dot then dropWhile is_digit (tl r1) else r1)
      in (ip, fp, r2))"

definition scan_decimal :: "string \<Rightarrow> (rat \<times> string) option" where
  \<comment> \<open>the longest prefix that is an unsigned decimal literal (digits, an optional
      fraction, an optional exponent; at least one digit): its exact value and the rest\<close>
  "scan_decimal u =
     (case scan_mantissa u of
        (ip, fp, r2) \<Rightarrow>
          if ip = [] \<and> fp = [] then None
          else (case scan_exponent r2 of
                  (ex, r3) \<Rightarrow>
                    Some (of_int (digits_value (ip @ fp)) * 10 powi (ex - int (length fp)), r3)))"

definition parseFloat :: "string \<Rightarrow> number" where
  \<comment> \<open>\<open>parseFloat\<close>: leading whitespace skipped, an optional sign, then \<open>Infinity\<close> or
      the longest decimal literal; whatever follows is ignored; \<open>NaN\<close> without a literal\<close>
  "parseFloat s =
     (let t = dropWhile is_ws s;
          negative = (t \<noteq> [] \<and> hd t = CHR ''-'');
          signed = (t \<noteq> [] \<and> (hd t = CHR ''-'' \<or> hd t = CHR ''+''));
          u = (if signed then tl t else t)
      in if startsWith u ''Infinity'' then (if negative then NegInf else PosInf)
         else (case scan_decimal u of
                 None \<Rightarrow> NaN
               | Some (m, rest) \<Rightarrow> fl (if negative then - m else m)))"

definition parseCssFontSize :: "string \<Rightarrow> number option" where
  "parseCssFontSize v =
     (if v = [] then None
      else (let normalized = trim v;
                numeric = parseFloat normalized
            in if numeric = NaN then None
               else if endsWith (toLowerCase normalized) ''pt'' then ptToPx numeric
               else Some numeric))"

section \<open>Style codec: style string to document style\<close>

record xlsx_font =
  xf_color :: "xlsx_color option option"
  xf_name :: "string option"
  xf_sz :: "number option"
  xf_bold :: "bool option"
  xf_italic :: "bool option"

record xlsx_fill =
  patternType :: string
  fgColor :: "xlsx_color option"
  bgColor :: "xlsx_color option"

record xlsx_style =
  xs_font :: "xlsx_font option"
  xs_fill :: "xlsx_fill option"

text \<open>
  An absent key of an object is \<open>None\<close>. The key \<open>color\<close> of a font can also hold
  \<open>null\<close>, the result of \<open>cssColorToXlsx\<close> on a colour it rejects: \<open>Some None\<close>.
\<close>

definition empty_xlsx_font :: xlsx_font where
  "empty_xlsx_font =
     \<lparr> xf_color = None, xf_name = None, xf_sz = None, xf_bold = None, xf_italic = None \<rparr>"

definition font_or_empty :: "xlsx_style \<Rightarrow> xlsx_font" where
  \<comment> \<open>\<open>style.font || {}\<close>\<close>
  "font_or_empty style = (case xs_font style of None \<Rightarrow> empty_xlsx_font | Some f \<Rightarrow> f)"

definition xlsx_style_step :: "xlsx_style \<Rightarrow> string \<Rightarrow> xlsx_style" where
  \<comment> \<open>the body of the \<open>forEach\<close> of \<open>cssToXlsxStyle\<close>, for one trimmed segment\<close>
  "xlsx_style_step style part =
     (case segment_fields part of
        (prop, val) \<Rightarrow>
          if truthy_str prop \<and> truthy_str val then
            (let p = the prop; v = the val; font = font_or_empty style in
             if p = ''color'' then
               style\<lparr> xs_font := Some (font\<lparr> xf_color := Some (cssColorToXlsx v) \<rparr>) \<rparr>
             else if p = ''background-color'' then
               style\<lparr> xs_fill := Some \<lparr> patternType = ''solid'', fgColor = cssColorToXlsx v,
                                         bgColor = cssColorToXlsx v \<rparr> \<rparr>
             else if p = ''font-family'' then
               style\<lparr> xs_font := Some (font\<lparr> xf_name := Some v \<rparr>) \<rparr>
             else if p = ''font-size'' then
               (case pxToPt_opt (parseCssFontSize v) of
                  None \<Rightarrow> style\<lparr> xs_font := Some font \<rparr>
                | Some sizePt \<Rightarrow> style\<lparr> xs_font := Some (font\<lparr> xf_sz := Some sizePt \<rparr>) \<rparr>)
             else if p = ''font-weight'' then
               style\<lparr> xs_font := Some (font\<lparr> xf_bold := Some (v = ''bold'' \<or> v = ''700'') \<rparr>) \<rparr>
             else if p = ''font-style'' then
               style\<lparr> xs_font := Some (font\<lparr> xf_italic := Some (v = ''italic'') \<rparr>) \<rparr>
             else style)
          else style)"

definition cssToXlsxStyle :: "string \<Rightarrow> xlsx_style option" where
  \<comment> \<open>\<open>None\<close> is \<open>null\<close>: an empty string, or no key was set\<close>
  "cssToXlsxStyle cssString =
     (if cssString = [] then None
      else (let style = foldl xlsx_style_step \<lparr> xs_font = None, xs_fill = None \<rparr>
                          (style_segments cssString)
            in if xs_font style = None \<and> xs_fill style = None then None else Some style))"

record excel_font =
  ef_color_argb :: "string option"
  ef_name :: "string option"
  ef_size :: "number option"
  ef_bold :: "bool option"
  ef_italic :: "bool option"

record excel_fill =
  fill_type :: string
  fill_pattern :: string
  fill_fgColor_argb :: string

record excel_style =
  font :: "excel_font option"
  fill :: "excel_fill option"

definition padStart :: "nat \<Rightarrow> char \<Rightarrow> string \<Rightarrow> string" where
  \<comment> \<open>\<open>s.padStart(n, c)\<close> for a one-character pad\<close>
  "padStart n c s = replicate (n - length s) c @ s"

definition excel_argb :: "string \<Rightarrow> string" where
  \<comment> \<open>\<open>`FF${v.replace('#', '').padStart(6, '0').toUpperCase()}`\<close>, written twice in
      \<open>cssToExcelStyle\<close>: for \<open>color\<close> and for \<open>background-color\<close>\<close>
  "excel_argb v = ''FF'' @ toUpperCase (padStart 6 (CHR ''0'') (remove1 (CHR ''#'') v))"

definition cssToExcelStyle :: "string option \<Rightarrow> excel_style" where
  \<comment> \<open>the argument is \<open>undefined\<close> (\<open>None\<close>) for a cell without a style\<close>
  "cssToExcelStyle cssString =
     (if \<not> truthy_str cssString then \<lparr> font = None, fill = None \<rparr>
      else (let parsed = parseStyleString (the cssString);
                f0 = \<lparr> ef_color_argb = None, ef_name = None, ef_size = None, ef_bold = None,
                       ef_italic = None \<rparr>;
                (f1, h1) = (if truthy_str (js_get parsed ''color'')
                            then (f0\<lparr> ef_color_argb :=
                                        Some (excel_argb (the (js_get parsed ''color''))) \<rparr>, True)
                            else (f0, False));
                (f2, h2) = (if truthy_str (js_get parsed ''font-family'')
                            then (f1\<lparr> ef_name := Some (normalizeFontName
                                        (hd (split_on (CHR '','') (the (js_get parsed ''font-family''))))) \<rparr>,
                                  True)
                            else (f1, h1));
                (f3, h3) = (if truthy_str (js_get parsed ''font-size'')
                            then (case pxToPt_opt (parseCssFontSize (the (js_get parsed ''font-size''))) of
                                    Some sizePt \<Rightarrow> (f2\<lparr> ef_size := Some sizePt \<rparr>, True)
                                  | None \<Rightarrow> (f2, h2))
                            else (f2, h2));
                (f4, h4) = (if truthy_str (js_get parsed ''font-weight'')
                            then (f3\<lparr> ef_bold := Some (the (js_get parsed ''font-weight'') = ''bold''
                                        \<or> the (js_get parsed ''font-weight'') = ''700'') \<rparr>, True)
                            else (f3, h3));
                (f5, hasFont) = (if truthy_str (js_get parsed ''font-style'')
                            then (f4\<lparr> ef_italic := Some (the (js_get parsed ''font-style'') = ''italic'') \<rparr>,
                                  True)
                            else (f4, h4));
                fl0 = (if truthy_str (js_get parsed ''background-color'')
                       then Some \<lparr> fill_type = ''pattern'', fill_pattern = ''solid'',
                                    fill_fgColor_argb =
                                      excel_argb (the (js_get parsed ''background-color'')) \<rparr>
                       else None)
            in \<lparr> font = (if hasFont then Some f5 else None), fill = fl0 \<rparr>))"

subsection \<open>The size field of a decoded style\<close>

definition xlsx_size :: "xlsx_style option \<Rightarrow> number option" where
  \<comment> \<open>the field \<open>font.sz\<close> of a decoded style, \<open>None\<close> when there is none\<close>
  "xlsx_size st =
     (case st of None \<Rightarrow> None | Some s \<Rightarrow> (case xs_font s of None \<Rightarrow> None | Some f \<Rightarrow> xf_sz f))"

definition excel_size :: "excel_style \<Rightarrow> number option" where
  \<comment> \<open>the field \<open>font.size\<close> of a decoded style, \<open>None\<close> when there is none\<close>
  "excel_size st = (case font st of None \<Rightarrow> None | Some f \<Rightarrow> ef_size f)"

definition sz_of :: "xlsx_style \<Rightarrow> number option" where
  \<comment> \<open>the field \<open>font.sz\<close> of the style under construction\<close>
  "sz_of st = (case xs_font st of None \<Rightarrow> None | Some f \<Rightarrow> xf_sz f)"

subsection \<open>The decoding of a font size in the words of the specification\<close>

text \<open>
  The unit conversions as the specification describes them, written in double arithmetic
  without the functions of the program: 4/3 pixels per point, both directions rounded to
  two decimals, \<open>floor(100 x + 1/2) / 100\<close> for a finite \<open>x\<close>; a value that is not finite
  has no conversion.
\<close>

definition two_decimals :: "number \<Rightarrow> number option" where
  "two_decimals v =
     (case v of
        Fin x \<Rightarrow> Some (case fl (x * 100) of
                        Fin w \<Rightarrow> fl (of_int \<lfloor>w + 1 / 2\<rfloor> / 100)
                      | overflow \<Rightarrow> overflow)
      | _ \<Rightarrow> None)"

definition pointsToPixels :: "number \<Rightarrow> number option" where
  "pointsToPixels v =
     (case v of
        Fin p \<Rightarrow> (case fl (4 / 3) of Fin c \<Rightarrow> two_decimals (fl (p * c)) | _ \<Rightarrow> None)
      | _ \<Rightarrow> None)"

definition pixelsToPoints :: "number \<Rightarrow> number option" where
  "pixelsToPoints v = (case v of Fin x \<Rightarrow> two_decimals (fl (x * (3 / 4))) | _ \<Rightarrow> None)"

definition has_pt_suffix :: "string \<Rightarrow> bool" where
  \<comment> \<open>the value ends with \<open>pt\<close>, in any letter case\<close>
  "has_pt_suffix v =
     (case rev v of
        t # p # _ \<Rightarrow> (t = CHR ''t'' \<or> t = CHR ''T'') \<and> (p = CHR ''p'' \<or> p = CHR ''P'')
      | _ \<Rightarrow> False)"

definition decode_font_size :: "string \<Rightarrow> number option" where
  \<comment> \<open>the size in points that a font-size value stands for: the number at its head is a
      number of points when the value ends with \<open>pt\<close>, converted to pixels and then back to
      points, and a number of pixels otherwise, converted to points; a value without a
      number at its head has no size\<close>
  "decode_font_size v =
     (case parseFloat v of
        NaN \<Rightarrow> None
      | n \<Rightarrow> if has_pt_suffix v
             then (case pointsToPixels n of None \<Rightarrow> None | Some px \<Rightarrow> pixelsToPoints px)
             else pixelsToPoints n)"

definition last_size :: "number option list \<Rightarrow> number option" where
  \<comment> \<open>the last size in a list of decodings, \<open>None\<close> when none of them is a size\<close>
  "last_size ds = (let sizes = filter (\<lambda>d. d \<noteq> None) ds in if sizes = [] then None else last sizes)"

section \<open>Document writer\<close>

text \<open>
  A grid cell holds a string, a number, a boolean, \<open>null\<close> or \<open>undefined\<close>. Two library
  functions are parameters of the model: \<open>num_str\<close>, the text ECMAScript prints for a
  Number, and \<open>encode_cell\<close>, the address (\<open>A1\<close>, \<open>B3\<close>, ...) the xlsx library gives to a
  zero-based row and column.
\<close>

datatype grid_value = GUndefined | GNull | GBool bool | GNum number | GStr string

datatype written_value = Formula string | Plain grid_value

definition String_of :: "(number \<Rightarrow> string) \<Rightarrow> grid_value \<Rightarrow> string" where
  \<comment> \<open>\<open>String(v)\<close>\<close>
  "String_of num_str v =
     (case v of
        GUndefined \<Rightarrow> ''undefined''
      | GNull \<Rightarrow> ''null''
      | GBool b \<Rightarrow> (if b then ''true'' else ''false'')
      | GNum n \<Rightarrow> num_str n
      | GStr s \<Rightarrow> s)"

definition radix_digit :: "char \<Rightarrow> int" where
  \<comment> \<open>the value of a character as a digit (\<open>0-9\<close>, \<open>a-z\<close>, \<open>A-Z\<close>), 36 for any other\<close>
  "radix_digit c =
     (let n = (of_char c :: int) in
      if 48 \<le> n \<and> n \<le> 57 then n - 48
      else if 97 \<le> n \<and> n \<le> 122 then n - 87
      else if 65 \<le> n \<and> n \<le> 90 then n - 55
      else 36)"

definition radix_literal :: "int \<Rightarrow> string \<Rightarrow> number" where
  \<comment> \<open>the digits after \<open>0x\<close>, \<open>0o\<close> or \<open>0b\<close>: at least one, all below the radix\<close>
  "radix_literal radix ds =
     (if ds \<noteq> [] \<and> list_all (\<lambda>c. radix_digit c < radix) ds
      then fl (of_int (foldl (\<lambda>acc c. radix * acc + radix_digit c) 0 ds))
      else NaN)"

definition StringToNumber :: "string \<Rightarrow> number" where
  \<comment> \<open>\<open>Number(s)\<close> for a string: the whole trimmed text must be one numeric literal;
      the empty text is 0\<close>
  "StringToNumber s =
     (let t = trim s in
      if t = [] then Fin 0
      else if startsWith t ''0x'' \<or> startsWith t ''0X'' then radix_literal 16 (drop 2 t)
      else if startsWith t ''0o'' \<or> startsWith t ''0O'' then radix_literal 8 (drop 2 t)
      else if startsWith t ''0b'' \<or> startsWith t ''0B'' then radix_literal 2 (drop 2 t)
      else (let negative = (hd t = CHR ''-'');
                signed = (hd t = CHR ''-'' \<or> hd t = CHR ''+'');
                u = (if signed then tl t else t)
            in if u = ''Infinity'' then (if negative then NegInf else PosInf)
               else (case scan_decimal u of
                       None \<Rightarrow> NaN
                     | Some (m, rest) \<Rightarrow>
                         if rest = [] then fl (if negative then - m else m) else NaN)))"

definition ToNumber :: "grid_value \<Rightarrow> number" where
  \<comment> \<open>\<open>Number(v)\<close>\<close>
  "ToNumber v =
     (case v of
        GUndefined \<Rightarrow> NaN
      | GNull \<Rightarrow> Fin 0
      | GBool b \<Rightarrow> (if b then Fin 1 else Fin 0)
      | GNum n \<Rightarrow> n
      | GStr s \<Rightarrow> StringToNumber s)"

definition cellStr_of :: "(number \<Rightarrow> string) \<Rightarrow> grid_value \<Rightarrow> string" where
  \<comment> \<open>\<open>String(cellValue ?? '')\<close>\<close>
  "cellStr_of num_str cellValue =
     (case cellValue of
        GUndefined \<Rightarrow> []
      | GNull \<Rightarrow> []
      | v \<Rightarrow> String_of num_str v)"

definition written_value_of :: "(number \<Rightarrow> string) \<Rightarrow> grid_value \<Rightarrow> written_value" where
  \<comment> \<open>what the writer assigns to \<open>cell.value\<close>\<close>
  "written_value_of num_str cellValue =
     (let cellStr = cellStr_of num_str cellValue in
      if startsWith cellStr ''='' then Formula (drop 1 cellStr)
      else (let num = ToNumber cellValue in
            if num \<noteq> NaN \<and> trim cellStr \<noteq> [] then Plain (GNum num)
            else Plain cellValue))"

record written_cell =
  wc_row :: nat
  wc_col :: nat
  wc_value :: written_value
  wc_font :: "excel_font option"
  wc_fill :: "excel_fill option"

definition write_cell ::
  "(number \<Rightarrow> string) \<Rightarrow> (nat \<Rightarrow> nat \<Rightarrow> string) \<Rightarrow> js_object \<Rightarrow> nat \<Rightarrow> nat \<Rightarrow> grid_value
     \<Rightarrow> written_cell" where
  \<comment> \<open>the body of the inner \<open>forEach\<close>: the cell at the 1-based row and column\<close>
  "write_cell num_str encode_cell styles rowIndex colIndex cellValue =
     (let style = cssToExcelStyle (js_get styles (encode_cell rowIndex colIndex)) in
      \<lparr> wc_row = rowIndex + 1, wc_col = colIndex + 1,
        wc_value = written_value_of num_str cellValue,
        wc_font = font style, wc_fill = fill style \<rparr>)"

definition dataToExcelBuffer ::
  "(number \<Rightarrow> string) \<Rightarrow> (nat \<Rightarrow> nat \<Rightarrow> string) \<Rightarrow> grid_value list list \<Rightarrow> js_object
     \<Rightarrow> written_cell list" where
  \<comment> \<open>the cells of the sheet that is serialized, in the order they are written\<close>
  "dataToExcelBuffer num_str encode_cell data styles =
     concat (map (\<lambda>(rowIndex, row).
                    map (\<lambda>(colIndex, cellValue).
                           write_cell num_str encode_cell styles rowIndex colIndex cellValue)
                      (enumerate 0 row))
               (enumerate 0 data))"

subsection \<open>Numeric text in the words of the specification\<close>

text \<open>
  A text parses as a number when it is a numeric literal of ECMAScript: an optional sign
  before \<open>Infinity\<close> or before a decimal literal, which is a mantissa (digits with at most
  one point and at least one digit) and an optional exponent (\<open>e\<close> or \<open>E\<close>, an optional
  sign and at least one digit); or \<open>0x\<close>, \<open>0o\<close> or \<open>0b\<close> before at least one digit of
  base 16, 8 or 2. The recognizer below does not scan the text as the model of \<open>Number\<close>
  does: it cuts the text at the first exponent mark and tests the two parts.
\<close>

definition is_exponent_mark :: "char \<Rightarrow> bool" where
  "is_exponent_mark c = (c = CHR ''e'' \<or> c = CHR ''E'')"

definition is_sign :: "char \<Rightarrow> bool" where
  "is_sign c = (c = CHR ''+'' \<or> c = CHR ''-'')"

definition is_mantissa :: "string \<Rightarrow> bool" where
  "is_mantissa m =
     (list_ex is_digit m \<and> list_all (\<lambda>c. is_digit c \<or> c = CHR ''.'') m
      \<and> length (filter (\<lambda>c. c = CHR ''.'') m) \<le> 1)"

definition unsigned :: "string \<Rightarrow> string" where
  \<comment> \<open>the text without the sign at its head, if it has one\<close>
  "unsigned t = (case t of [] \<Rightarrow> [] | c # r \<Rightarrow> if is_sign c then r else t)"

definition is_exponent :: "string \<Rightarrow> bool" where
  "is_exponent ex =
     (case ex of
        [] \<Rightarrow> True
      | c # r \<Rightarrow> is_exponent_mark c \<and> unsigned r \<noteq> [] \<and> list_all is_digit (unsigned r))"

definition is_decimal_literal :: "string \<Rightarrow> bool" where
  "is_decimal_literal u =
     (is_mantissa (takeWhile (\<lambda>c. \<not> is_exponent_mark c) u)
      \<and> is_exponent (dropWhile (\<lambda>c. \<not> is_exponent_mark c) u))"

definition is_octal_digit :: "char \<Rightarrow> bool" where
  "is_octal_digit c = (let n = (of_char c :: nat) in 48 \<le> n \<and> n \<le> 55)"

definition is_binary_digit :: "char \<Rightarrow> bool" where
  "is_binary_digit c = (c = CHR ''0'' \<or> c = CHR ''1'')"

definition is_radix_literal :: "string \<Rightarrow> bool" where
  "is_radix_literal t =
     (case t of
        z # x # ds \<Rightarrow>
          z = CHR ''0'' \<and> ds \<noteq> []
          \<and> ((x = CHR ''x'' \<or> x = CHR ''X'') \<and> list_all is_hex_digit ds
             \<or> (x = CHR ''o'' \<or> x = CHR ''O'') \<and> list_all is_octal_digit ds
             \<or> (x = CHR ''b'' \<or> x = CHR ''B'') \<and> list_all is_binary_digit ds)
      | _ \<Rightarrow> False)"

definition is_numeric_literal :: "string \<Rightarrow> bool" where
  "is_numeric_literal t =
     (is_radix_literal t \<or> unsigned t = ''Infinity'' \<or> is_decimal_literal (unsigned t))"

definition stored_value :: "grid_value \<Rightarrow> written_value" where
  \<comment> \<open>what is stored for a cell that is not a formula: the number \<open>Number(v)\<close> for a
      string that parses as a number once stripped and for a boolean, the value itself
      otherwise\<close>
  "stored_value v =
     (case v of
        GStr s \<Rightarrow> if is_numeric_literal (spec_strip s) then Plain (GNum (StringToNumber s))
                  else Plain (GStr s)
      | GBool b \<Rightarrow> Plain (GNum (if b then Fin 1 else Fin 0))
      | _ \<Rightarrow> Plain v)"

section \<open>Document reader\<close>

subsection \<open>Values of the document library\<close>

text \<open>
  A cell value of the document library is any JavaScript value: a primitive, a date, an
  array or an object with its own properties in a list. The reader looks into it by duck
  typing, and the model keeps the same tests.
\<close>

datatype jsval =
    JUndefined | JNull | JBool bool | JNum number | JStr string | JDate string
  | JArray "jsval list" | JObject "(string \<times> jsval) list"

fun truthy :: "jsval \<Rightarrow> bool" where
  "truthy JUndefined = False"
| "truthy JNull = False"
| "truthy (JBool b) = b"
| "truthy (JNum n) = (case n of NaN \<Rightarrow> False | Fin x \<Rightarrow> x \<noteq> 0 | PosInf \<Rightarrow> True | NegInf \<Rightarrow> True)"
| "truthy (JStr s) = (s \<noteq> [])"
| "truthy (JDate d) = True"
| "truthy (JArray xs) = True"
| "truthy (JObject ps) = True"

fun is_nullish :: "jsval \<Rightarrow> bool" where
  "is_nullish JUndefined = True"
| "is_nullish JNull = True"
| "is_nullish v = False"

fun is_object :: "jsval \<Rightarrow> bool" where
  \<comment> \<open>\<open>typeof v === 'object'\<close> for a truthy \<open>v\<close>\<close>
  "is_object (JDate d) = True"
| "is_object (JArray xs) = True"
| "is_object (JObject ps) = True"
| "is_object v = False"

fun has_key :: "jsval \<Rightarrow> string \<Rightarrow> bool" where
  \<comment> \<open>\<open>k in v\<close> for an object \<open>v\<close> and a key that no prototype defines\<close>
  "has_key (JObject ps) k = (map_of ps k \<noteq> None)"
| "has_key v k = False"

fun get_prop :: "jsval \<Rightarrow> string \<Rightarrow> jsval" where
  \<comment> \<open>\<open>v[k]\<close> for a \<open>v\<close> that is neither \<open>null\<close> nor \<open>undefined\<close>, same keys\<close>
  "get_prop (JObject ps) k = (case map_of ps k of None \<Rightarrow> JUndefined | Some x \<Rightarrow> x)"
| "get_prop v k = JUndefined"

fun isArray :: "jsval \<Rightarrow> bool" where
  "isArray (JArray xs) = True"
| "isArray v = False"

fun array_items :: "jsval \<Rightarrow> jsval list" where
  "array_items (JArray xs) = xs"
| "array_items v = []"

definition or_else :: "jsval \<Rightarrow> jsval \<Rightarrow> jsval" where
  \<comment> \<open>\<open>a || b\<close>\<close>
  "or_else a b = (if truthy a then a else b)"

fun js_to_string :: "(number \<Rightarrow> string) \<Rightarrow> jsval \<Rightarrow> string" where
  \<comment> \<open>the text of a value in a template literal or a \<open>join\<close>; \<open>num_str\<close> prints a Number\<close>
  "js_to_string num_str JUndefined = ''undefined''"
| "js_to_string num_str JNull = ''null''"
| "js_to_string num_str (JBool b) = (if b then ''true'' else ''false'')"
| "js_to_string num_str (JNum n) = num_str n"
| "js_to_string num_str (JStr s) = s"
| "js_to_string num_str (JDate d) = d"
| "js_to_string num_str (JArray xs) =
     join '','' (map (\<lambda>x. if is_nullish x then [] else js_to_string num_str x) xs)"
| "js_to_string num_str (JObject ps) = ''[object Object]''"

record cell_font =
  cf_color_argb :: "string option"
  cf_name :: "string option"
  cf_size :: "number option"
  cf_bold :: bool
  cf_italic :: bool

record cell_fill =
  cfill_type :: "string option"
  cfill_fgColor_argb :: "string option"
  cfill_bgColor_argb :: "string option"

record excel_cell =
  c_value :: jsval
  c_formula :: jsval
  c_text :: string
  c_font :: "cell_font option"
  c_fill :: "cell_fill option"

text \<open>
  A worksheet is the list of its rows, a row the list of its cells; a position that holds no
  cell is \<open>None\<close>. The declared row count is the number of rows, the cell count of a row
  the length of its list, and reading a position without a cell gives an empty cell.
\<close>

type_synonym worksheet = "excel_cell option list list"

definition empty_cell :: excel_cell where
  "empty_cell = \<lparr> c_value = JNull, c_formula = JUndefined, c_text = [], c_font = None,
                   c_fill = None \<rparr>"

definition cell_at :: "worksheet \<Rightarrow> nat \<Rightarrow> nat \<Rightarrow> excel_cell" where
  \<comment> \<open>\<open>worksheet.getRow(r + 1).getCell(c + 1)\<close>\<close>
  "cell_at ws r c =
     (if r < length ws \<and> c < length (ws ! r)
      then (case ws ! r ! c of None \<Rightarrow> empty_cell | Some cell \<Rightarrow> cell)
      else empty_cell)"

subsection \<open>Document style to style string, ExcelJS variant\<close>

fun isInteger :: "number \<Rightarrow> bool" where
  "isInteger (Fin x) = (of_int \<lfloor>x\<rfloor> = x)"
| "isInteger v = False"

fun Math_trunc :: "number \<Rightarrow> number" where
  "Math_trunc (Fin x) = Fin (of_int (if 0 \<le> x then \<lfloor>x\<rfloor> else \<lceil>x\<rceil>))"
| "Math_trunc v = v"

definition formatPx :: "(number \<Rightarrow> string) \<Rightarrow> number \<Rightarrow> string" where
  "formatPx num_str sizePx =
     (if \<not> isFinite sizePx then []
      else (case toFixedNumber sizePx of
              None \<Rightarrow> []
            | Some rounded \<Rightarrow>
                num_str (if isInteger rounded then Math_trunc rounded else rounded)))"

definition excelColorToCss :: "string option \<Rightarrow> string option" where
  "excelColorToCss argb =
     (if \<not> truthy_str argb then None else Some (''#'' @ slice_last 6 (the argb)))"

definition font_css :: "(number \<Rightarrow> string) \<Rightarrow> cell_font \<Rightarrow> js_error + string list" where
  \<comment> \<open>the entries \<open>excelCellStyleToCss\<close> pushes for a font, in order\<close>
  "font_css num_str f =
     (let color_part = (case excelColorToCss (cf_color_argb f) of
                          None \<Rightarrow> [] | Some color \<Rightarrow> [''color: '' @ color]);
          size_part = (case cf_size f of
                         None \<Rightarrow> []
                       | Some sizePt \<Rightarrow>
                           if truthy (JNum sizePt)
                           then (case ptToPx sizePt of
                                   None \<Rightarrow> []
                                 | Some pxSize \<Rightarrow> [''font-size: '' @ formatPx num_str pxSize @ ''px''])
                           else []);
          bold_part = (if cf_bold f then [''font-weight: bold''] else []);
          italic_part = (if cf_italic f then [''font-style: italic''] else [])
      in if truthy_str (cf_name f)
         then (case buildFontFamily (the (cf_name f)) of
                 Inl e \<Rightarrow> Inl e
               | Inr family \<Rightarrow>
                   Inr (color_part @ [''font-family: '' @ family] @ size_part @ bold_part
                        @ italic_part))
         else Inr (color_part @ size_part @ bold_part @ italic_part))"

definition fill_css :: "cell_fill \<Rightarrow> string list" where
  \<comment> \<open>the entry pushed for a pattern fill: the foreground colour, else the background\<close>
  "fill_css fill0 =
     (if cfill_type fill0 = Some ''pattern''
      then (case excelColorToCss (if truthy_str (cfill_fgColor_argb fill0)
                                  then cfill_fgColor_argb fill0 else cfill_bgColor_argb fill0) of
              None \<Rightarrow> [] | Some color \<Rightarrow> [''background-color: '' @ color])
      else [])"

definition excelCellStyleToCss :: "(number \<Rightarrow> string) \<Rightarrow> excel_cell \<Rightarrow> js_error + string" where
  "excelCellStyleToCss num_str cell =
     (case (case c_font cell of None \<Rightarrow> Inr [] | Some f \<Rightarrow> font_css num_str f) of
        Inl e \<Rightarrow> Inl e
      | Inr font_parts \<Rightarrow>
          Inr (join ''; '' (font_parts @ (case c_fill cell of None \<Rightarrow> [] | Some fill0 \<Rightarrow> fill_css fill0))))"

subsection \<open>The display value of a cell\<close>

definition formula_of :: "jsval \<Rightarrow> string \<Rightarrow> jsval" where
  \<comment> \<open>\<open>v && typeof v === 'object' && k in v && v[k]\<close>\<close>
  "formula_of v k =
     (if \<not> truthy v then v
      else if \<not> is_object v then JBool False
      else if \<not> has_key v k then JBool False
      else get_prop v k)"

definition richText_text :: "(number \<Rightarrow> string) \<Rightarrow> jsval list \<Rightarrow> js_error + string" where
  \<comment> \<open>\<open>v.richText.map(part => part.text || '').join('')\<close>; reading \<open>text\<close> of a part
      that is \<open>null\<close> or \<open>undefined\<close> throws\<close>
  "richText_text num_str parts =
     (if list_ex is_nullish parts then Inl TypeError
      else Inr (concat (map (\<lambda>part. js_to_string num_str
                                       (or_else (get_prop part ''text'') (JStr []))) parts)))"

definition display_value :: "(number \<Rightarrow> string) \<Rightarrow> excel_cell \<Rightarrow> js_error + jsval" where
  \<comment> \<open>\<open>displayValue\<close> at the end of the cascade. The branch for \<open>v instanceof Date\<close>
      is never taken, a date being an object, so a value that is not an object is kept.\<close>
  "display_value num_str cell =
     (let v = c_value cell;
          formula = or_else (c_formula cell)
                      (or_else (formula_of v ''formula'') (formula_of v ''sharedFormula''))
      in if truthy formula then Inr (JStr (''='' @ js_to_string num_str formula))
         else if \<not> is_nullish v then
           (if truthy v \<and> is_object v then
              (if isArray (get_prop v ''richText'') then
                 (case richText_text num_str (array_items (get_prop v ''richText'')) of
                    Inl e \<Rightarrow> Inl e
                  | Inr s \<Rightarrow> Inr (JStr s))
               else if has_key v ''hyperlink'' then
                 Inr (or_else (get_prop v ''text'') (or_else (get_prop v ''hyperlink'') (JStr [])))
               else if has_key v ''result'' \<and> get_prop v ''result'' \<noteq> JUndefined then
                 Inr (get_prop v ''result'')
               else Inr (JStr (c_text cell)))
            else Inr v)
         else Inr (JStr []))"

definition grid_entry :: "jsval \<Rightarrow> jsval" where
  \<comment> \<open>\<open>displayValue === undefined || displayValue === null ? '' : displayValue\<close>\<close>
  "grid_entry displayValue = (if is_nullish displayValue then JStr [] else displayValue)"

subsection \<open>The reader\<close>

definition read_cell ::
  "(number \<Rightarrow> string) \<Rightarrow> excel_cell \<Rightarrow> js_error + (jsval \<times> string)" where
  \<comment> \<open>the body of the inner loop: the grid entry and the style string of a cell\<close>
  "read_cell num_str cell =
     (case display_value num_str cell of
        Inl e \<Rightarrow> Inl e
      | Inr d \<Rightarrow>
          (case excelCellStyleToCss num_str cell of
             Inl e \<Rightarrow> Inl e
           | Inr css \<Rightarrow> Inr (grid_entry d, css)))"

fun read_cols ::
  "(number \<Rightarrow> string) \<Rightarrow> (nat \<Rightarrow> nat \<Rightarrow> string) \<Rightarrow> worksheet \<Rightarrow> nat \<Rightarrow> nat list \<Rightarrow> js_object
     \<Rightarrow> js_error + (jsval list \<times> js_object)" where
  \<comment> \<open>the inner loop over the columns of row \<open>r\<close>: the row of the grid and the styles\<close>
  "read_cols num_str encode_cell ws r [] styles = Inr ([], styles)"
| "read_cols num_str encode_cell ws r (c # cs) styles =
     (case read_cell num_str (cell_at ws r c) of
        Inl e \<Rightarrow> Inl e
      | Inr (entry, css) \<Rightarrow>
          (case read_cols num_str encode_cell ws r cs
                  (if css \<noteq> [] then js_set styles (encode_cell r c) css else styles) of
             Inl e \<Rightarrow> Inl e
           | Inr (entries, styles') \<Rightarrow> Inr (entry # entries, styles')))"

fun read_rows ::
  "(number \<Rightarrow> string) \<Rightarrow> (nat \<Rightarrow> nat \<Rightarrow> string) \<Rightarrow> worksheet \<Rightarrow> nat list \<Rightarrow> nat list \<Rightarrow> js_object
     \<Rightarrow> js_error + (jsval list list \<times> js_object)" where
  \<comment> \<open>the outer loop over the rows\<close>
  "read_rows num_str encode_cell ws [] cols styles = Inr ([], styles)"
| "read_rows num_str encode_cell ws (r # rs) cols styles =
     (case read_cols num_str encode_cell ws r cols styles of
        Inl e \<Rightarrow> Inl e
      | Inr (row, styles') \<Rightarrow>
          (case read_rows num_str encode_cell ws rs cols styles' of
             Inl e \<Rightarrow> Inl e
           | Inr (rows, styles'') \<Rightarrow> Inr (row # rows, styles'')))"

definition max_cell_count :: "worksheet \<Rightarrow> nat" where
  \<comment> \<open>\<open>maxCol\<close> after \<open>eachRow\<close>, which visits every row, the empty ones included\<close>
  "max_cell_count ws = foldl (\<lambda>maxCol row. max maxCol (length row)) 0 ws"

definition extractDataAndStyles ::
  "(number \<Rightarrow> string) \<Rightarrow> (nat \<Rightarrow> nat \<Rightarrow> string) \<Rightarrow> worksheet list
     \<Rightarrow> js_error + (jsval list list \<times> js_object)" where
  \<comment> \<open>the grid and the style map for \<open>workbook.worksheets[0]\<close> of a loaded workbook; in a
      workbook without a sheet, reading \<open>rowCount\<close> of \<open>undefined\<close> throws. Every entry of
      the grid is assigned once, so the grid is the list of the rows read.\<close>
  "extractDataAndStyles num_str encode_cell worksheets =
     (case worksheets of
        [] \<Rightarrow> Inl TypeError
      | ws # others \<Rightarrow>
          (let rows = max (length ws) 1;
               cols = max (max_cell_count ws) 1
           in read_rows num_str encode_cell ws [0..<rows] [0..<cols] []))"

subsection \<open>The grid in the words of the specification\<close>

definition max_cells :: "worksheet \<Rightarrow> nat" where
  \<comment> \<open>the largest cell count of a row, 0 for a sheet without rows\<close>
  "max_cells ws = Max (set (0 # map length ws))"

definition readable_cell :: "excel_cell \<Rightarrow> bool" where
  \<comment> \<open>the font name of the cell, without its quotes and the whitespace around it, is not
      the name of a property that every object inherits, and the rich text of the cell has no
      run that is \<open>null\<close> or \<open>undefined\<close>\<close>
  "readable_cell cell =
     ((case c_font cell of
         None \<Rightarrow> True
       | Some f \<Rightarrow>
           (case cf_name f of
              None \<Rightarrow> True
            | Some name \<Rightarrow> normalizeFontName name \<notin> set Object_prototype_keys))
      \<and> \<not> list_ex is_nullish (array_items (get_prop (c_value cell) ''richText'')))"

section \<open>Properties of the style string algebra\<close>

lemma split_on_nonempty: "split_on c s \<noteq> []"
  by (induction s) (auto split: list.splits)

lemma split_on_no_sep: "c \<notin> set s \<Longrightarrow> split_on c s = [s]"
  by (induction s) auto

lemma split_on_append: "c \<notin> set a \<Longrightarrow> split_on c (a @ c # b) = a # split_on c b"
  by (induction a) (auto split: list.splits simp: split_on_nonempty)

lemma map_of_insert_index:
  "map_of obj k = None \<Longrightarrow>
   map_of (insert_index k v obj) x = (if x = k then Some v else map_of obj x)"
  by (induction obj) (auto split: if_splits)

lemma map_of_replace:
  "map_of (map (\<lambda>(k', v'). if k' = k then (k', v) else (k', v')) obj) x
     = (if x = k then (case map_of obj k of None \<Rightarrow> None | Some _ \<Rightarrow> Some v)
        else map_of obj x)"
  by (induction obj) auto

lemma map_of_js_set:
  "map_of (js_set obj k v) = (if k = ''__proto__'' then map_of obj else (map_of obj)(k \<mapsto> v))"
  by (rule ext)
     (auto simp: js_set_def has_own_def map_of_insert_index map_of_replace map_add_def
           split: option.splits)

lemma before_after_no_colon:
  "CHR '':'' \<notin> set t \<Longrightarrow> before_colon t = t \<and> after_colon t = None"
  by (induction t) (auto simp: before_colon_def after_colon_def)

lemma before_after_colon:
  "CHR '':'' \<notin> set a \<Longrightarrow>
   before_colon (a @ CHR '':'' # b) = a \<and> after_colon (a @ CHR '':'' # b) = Some b"
  by (induction a) (auto simp: before_colon_def after_colon_def)

lemma split_on_fields:
  "nth_opt (split_on CHR '':'' t) 0 = Some (before_colon t) \<and>
   nth_opt (split_on CHR '':'' t) 1 = map_option before_colon (after_colon t)"
proof (cases "CHR '':'' \<in> set t")
  case False
  then show ?thesis
    by (simp add: split_on_no_sep before_after_no_colon nth_opt_def)
next
  case True
  then obtain a b where t: "t = a @ CHR '':'' # b" and a: "CHR '':'' \<notin> set a"
    by (auto dest: split_list_first)
  show ?thesis
  proof (cases "CHR '':'' \<in> set b")
    case False
    with a show ?thesis
      unfolding t by (simp add: split_on_append split_on_no_sep before_after_colon
          before_after_no_colon nth_opt_def)
  next
    case True
    then obtain b1 b2 where b: "b = b1 @ CHR '':'' # b2" and b1: "CHR '':'' \<notin> set b1"
      by (auto dest: split_list_first)
    from a b1 show ?thesis
      unfolding t b by (simp add: split_on_append before_after_colon nth_opt_def)
  qed
qed

lemma spec_strip_trim: "spec_strip t = trim t"
proof -
  define u where "u = dropWhile is_ws t"
  have "rev u = takeWhile is_ws (rev u) @ dropWhile is_ws (rev u)" by simp
  then have "u = rev (dropWhile is_ws (rev u)) @ rev (takeWhile is_ws (rev u))"
    by (metis rev_append rev_rev_ident)
  moreover have "length (rev (dropWhile is_ws (rev u))) = length u - length (takeWhile is_ws (rev u))"
    by (metis add_diff_cancel_left' length_append length_rev takeWhile_dropWhile_id)
  ultimately have "take (length u - length (takeWhile is_ws (rev u))) u
      = rev (dropWhile is_ws (rev u))"
    by (metis append_eq_conv_conj)
  then show ?thesis by (simp add: spec_strip_def trim_def u_def Let_def)
qed

lemma spec_pieces_split: "spec_pieces c s = split_on c s"
proof (induction s)
  case Nil
  have "dropWhile (\<lambda>a. a \<noteq> c) [] = []" by simp
  then have "spec_pieces c [] = [[]]"
    by (subst spec_pieces.simps) (simp only: list.case)
  then show ?case by simp
next
  case (Cons x xs)
  show ?case
  proof (cases "x = c")
    case True
    then have d: "dropWhile (\<lambda>a. a \<noteq> c) (x # xs) = x # xs"
      and t: "takeWhile (\<lambda>a. a \<noteq> c) (x # xs) = []" by simp_all
    have "spec_pieces c (x # xs) = [] # spec_pieces c xs"
      by (subst spec_pieces.simps) (simp only: d t list.case)
    with True show ?thesis by (simp add: Cons.IH)
  next
    case False
    then have d: "dropWhile (\<lambda>a. a \<noteq> c) (x # xs) = dropWhile (\<lambda>a. a \<noteq> c) xs"
      and t: "takeWhile (\<lambda>a. a \<noteq> c) (x # xs) = x # takeWhile (\<lambda>a. a \<noteq> c) xs" by simp_all
    show ?thesis
    proof (cases "dropWhile (\<lambda>a. a \<noteq> c) xs")
      case Nil
      then have all: "takeWhile (\<lambda>a. a \<noteq> c) xs = xs"
        by (metis append_Nil2 takeWhile_dropWhile_id)
      have "spec_pieces c xs = [xs]"
        by (subst spec_pieces.simps) (simp only: Nil list.case)
      then have 1: "split_on c xs = [xs]" by (simp only: Cons.IH)
      have 2: "spec_pieces c (x # xs) = [x # xs]"
        by (subst spec_pieces.simps) (simp only: d Nil list.case)
      from 1 2 False show ?thesis by simp
    next
      case (Cons y rest)
      have "spec_pieces c xs = takeWhile (\<lambda>a. a \<noteq> c) xs # spec_pieces c rest"
        by (subst spec_pieces.simps) (simp only: Cons list.case)
      then have 1: "split_on c xs = takeWhile (\<lambda>a. a \<noteq> c) xs # spec_pieces c rest"
        by (simp only: Cons.IH)
      have 2: "spec_pieces c (x # xs)
          = (x # takeWhile (\<lambda>a. a \<noteq> c) xs) # spec_pieces c rest"
        by (subst spec_pieces.simps) (simp only: d t Cons list.case)
      from 1 2 False show ?thesis by simp
    qed
  qed
qed

lemma spec_segments_eq: "spec_segments s = style_segments s"
  by (simp add: spec_segments_def style_segments_def spec_pieces_split spec_strip_trim cong: map_cong)

lemma segment_fields_spec:
  "(case segment_fields part of (prop, value) \<Rightarrow>
      if truthy_str prop \<and> truthy_str value
      then Some (the prop, the value) else None) = spec_segment part"
  using split_on_fields[of part]
  by (cases "after_colon part")
     (auto simp: segment_fields_def spec_segment_def nth_opt_def truthy_str_def Let_def
           spec_strip_trim split: if_splits)

lemma parse_step_spec:
  "(case segment_fields part of
      (prop, value) \<Rightarrow>
        if truthy_str prop \<and> truthy_str value
        then js_set acc (the prop) (the value) else acc)
   = (case spec_segment part of None \<Rightarrow> acc | Some (p, v) \<Rightarrow> js_set acc p v)"
  using segment_fields_spec[of part]
  by (auto split: prod.splits if_splits option.splits)

lemma parse_fold_decls:
  "foldl (\<lambda>acc part.
              (case segment_fields part of
                 (prop, value) \<Rightarrow>
                   if truthy_str prop \<and> truthy_str value
                   then js_set acc (the prop) (the value) else acc)) acc segs
   = foldl (\<lambda>acc (p, v). js_set acc p v) acc (List.map_filter spec_segment segs)"
proof -
  have step: "(\<lambda>acc part.
              (case segment_fields part of
                 (prop, value) \<Rightarrow>
                   if truthy_str prop \<and> truthy_str value
                   then js_set acc (the prop) (the value) else acc))
      = (\<lambda>acc part. case spec_segment part of None \<Rightarrow> acc | Some (p, v) \<Rightarrow> js_set acc p v)"
    by (intro ext) (rule parse_step_spec)
  have "foldl (\<lambda>acc part. case spec_segment part of None \<Rightarrow> acc | Some (p, v) \<Rightarrow> js_set acc p v)
          acc segs
        = foldl (\<lambda>acc (p, v). js_set acc p v) acc (List.map_filter spec_segment segs)"
    by (induction segs arbitrary: acc) (auto simp: List.map_filter_simps split: option.splits)
  then show ?thesis by (simp only: step)
qed

lemma parse_decls:
  "parseStyleString s = foldl (\<lambda>acc (p, v). js_set acc p v) [] (spec_declarations s)"
  by (simp add: parseStyleString_def parse_fold_decls spec_declarations_def spec_segments_eq)

lemma fold_update_cong:
  fixes m1 m2 :: "string \<rightharpoonup> string"
  assumes "m1 k = m2 k"
  shows "foldl (\<lambda>m (p, v). m(p \<mapsto> v)) m1 ds k = foldl (\<lambda>m (p, v). m(p \<mapsto> v)) m2 ds k"
  using assms
proof (induction ds arbitrary: m1 m2)
  case Nil
  then show ?case by simp
next
  case (Cons d ds)
  obtain p v where d: "d = (p, v)" by (cases d)
  from Cons.prems have "(m1(p \<mapsto> v)) k = (m2(p \<mapsto> v)) k" by simp
  then have "foldl (\<lambda>m (p, v). m(p \<mapsto> v)) (m1(p \<mapsto> v)) ds k
             = foldl (\<lambda>m (p, v). m(p \<mapsto> v)) (m2(p \<mapsto> v)) ds k"
    by (rule Cons.IH)
  then show ?case unfolding d by (simp only: foldl_Cons prod.case)
qed

lemma fold_js_set_spec:
  assumes "k \<noteq> ''__proto__''"
  shows "map_of (foldl (\<lambda>acc (p, v). js_set acc p v) acc ds) k
           = foldl (\<lambda>m (p, v). m(p \<mapsto> v)) (map_of acc) ds k"
proof (induction ds arbitrary: acc)
  case Nil
  then show ?case by simp
next
  case (Cons d ds)
  obtain p v where d: "d = (p, v)" by (cases d)
  have "map_of (js_set acc p v) k = ((map_of acc)(p \<mapsto> v)) k"
    using assms by (simp add: map_of_js_set)
  then have "foldl (\<lambda>m (p, v). m(p \<mapsto> v)) (map_of (js_set acc p v)) ds k
        = foldl (\<lambda>m (p, v). m(p \<mapsto> v)) ((map_of acc)(p \<mapsto> v)) ds k"
    by (rule fold_update_cong)
  with Cons.IH[of "js_set acc p v"] show ?case unfolding d by (simp only: foldl_Cons prod.case)
qed

lemma trim_id: "\<not> is_ws (hd s) \<Longrightarrow> \<not> is_ws (last s) \<Longrightarrow> trim s = s"
proof (cases "s = []")
  case True
  then show ?thesis by (simp add: trim_def)
next
  case False
  assume a: "\<not> is_ws (hd s)" "\<not> is_ws (last s)"
  with False have 1: "dropWhile is_ws s = s"
    by (simp add: dropWhile_eq_self_iff)
  from a False have 2: "dropWhile is_ws (rev s) = rev s"
    by (simp add: dropWhile_eq_self_iff hd_rev)
  show ?thesis by (simp add: trim_def 1 2)
qed

lemma trim_space: "trim (CHR '' '' # t) = trim t"
  by (simp add: trim_def is_ws_def)

lemma set_trim: "set (trim t) \<subseteq> set t"
proof -
  have "set (dropWhile is_ws (rev (dropWhile is_ws t))) \<subseteq> set (rev (dropWhile is_ws t))"
    by (rule set_dropWhileD[THEN subsetI]) 
  also have "\<dots> \<subseteq> set t"
    using set_dropWhileD[of _ is_ws t] by auto
  finally show ?thesis by (simp add: trim_def)
qed

lemma trim_ends:
  assumes "trim t \<noteq> []"
  shows "\<not> is_ws (hd (trim t)) \<and> \<not> is_ws (last (trim t))"
proof -
  let ?u = "dropWhile is_ws t"
  let ?w = "dropWhile is_ws (rev ?u)"
  from assms have w: "?w \<noteq> []" by (simp add: trim_def)
  have u: "?u \<noteq> []"
  proof
    assume "?u = []"
    then have "?w = []" by (metis dropWhile.simps(1) rev.simps(1))
    with w show False by contradiction
  qed
  have "last (trim t) = hd ?w" using w by (simp add: trim_def last_rev)
  moreover have "\<not> is_ws (hd ?w)" using w by (rule hd_dropWhile)
  moreover have "hd (trim t) = last ?w" using w by (simp add: trim_def hd_rev)
  moreover have "last ?w = last (rev ?u)"
  proof -
    have "rev ?u = takeWhile is_ws (rev ?u) @ ?w" by simp
    then show ?thesis using w by (metis last_appendR)
  qed
  moreover have "last (rev ?u) = hd ?u" using u by (simp add: last_rev)
  moreover have "\<not> is_ws (hd ?u)" using u by (rule hd_dropWhile)
  ultimately show ?thesis by simp
qed

lemma split_on_space:
  "map trim (split_on CHR '';'' (CHR '' '' # r)) = map trim (split_on CHR '';'' r)"
  by (cases "split_on CHR '';'' r") (simp_all add: split_on_nonempty trim_space)

lemma segments_join:
  "list_all (\<lambda>seg. seg \<noteq> [] \<and> \<not> is_ws (hd seg) \<and> \<not> is_ws (last seg) \<and> CHR '';'' \<notin> set seg) segs
   \<Longrightarrow> style_segments (join ''; '' segs) = segs"
proof (induction "''; ''" segs rule: join.induct)
  case 1
  then show ?case by (simp add: style_segments_def trim_def)
next
  case (2 p)
  then show ?case by (simp add: style_segments_def split_on_no_sep trim_id)
next
  case (3 p q ps)
  from 3 have "style_segments (join ''; '' (q # ps)) = q # ps" by simp
  then have "filter (\<lambda>part. part \<noteq> [])
      (map trim (split_on CHR '';'' (CHR '' '' # join ''; '' (q # ps)))) = q # ps"
    by (simp del: split_on.simps add: style_segments_def split_on_space)
  with 3(2) show ?case
    by (simp del: split_on.simps add: style_segments_def split_on_append trim_id)
qed

lemma segment_fields_clean:
  assumes "clean_text k" and "clean_text v"
  shows "segment_fields (k @ CHR '':'' # CHR '' '' # v) = (Some k, Some v)"
proof -
  from assms have "split_on CHR '':'' (k @ CHR '':'' # CHR '' '' # v) = [k, CHR '' '' # v]"
    by (simp add: clean_text_def split_on_append split_on_no_sep is_ws_def)
  moreover have "trim k = k" "trim (CHR '' '' # v) = v"
    using assms by (simp_all add: clean_text_def trim_id trim_space)
  ultimately show ?thesis
    by (simp add: segment_fields_def nth_opt_def)
qed

lemma segment_text_clean:
  assumes "clean_text k" and "clean_text v"
  shows "(\<lambda>seg. seg \<noteq> [] \<and> \<not> is_ws (hd seg) \<and> \<not> is_ws (last seg) \<and> CHR '';'' \<notin> set seg)
           (k @ '': '' @ v)"
  using assms by (simp add: clean_text_def)

lemma parse_serialize_fold:
  assumes "list_all (\<lambda>(k, v). clean_text k \<and> clean_text v \<and> k \<noteq> ''__proto__'') m"
  shows "parseStyleString (serialize m) = foldl (\<lambda>merged (key, value). js_set merged key value) [] m"
proof -
  have segs: "style_segments (serialize m) = map (\<lambda>(k, v). k @ '': '' @ v) m"
    unfolding serialize_def
    by (rule segments_join) (use assms segment_text_clean in \<open>auto simp: list_all_iff\<close>)
  have "foldl (\<lambda>acc part.
              (case segment_fields part of
                 (prop, value) \<Rightarrow>
                   if truthy_str prop \<and> truthy_str value
                   then js_set acc (the prop) (the value) else acc))
          acc (map (\<lambda>(k, v). k @ '': '' @ v) m)
        = foldl (\<lambda>merged (key, value). js_set merged key value) acc m" for acc
    using assms
  proof (induction m arbitrary: acc)
    case Nil
    then show ?case by simp
  next
    case (Cons kv m)
    obtain k v where kv: "kv = (k, v)" by (cases kv)
    from Cons.prems kv have c: "clean_text k" "clean_text v" by simp_all
    then have ne: "k \<noteq> []" "v \<noteq> []" by (simp_all add: clean_text_def)
    from Cons.prems have rest: "list_all (\<lambda>(k, v). clean_text k \<and> clean_text v \<and> k \<noteq> ''__proto__'') m"
      by simp
    show ?case
      using Cons.IH[OF rest] ne
      by (simp add: kv segment_fields_clean[OF c] truthy_str_def)
  qed
  then show ?thesis
    by (simp add: parseStyleString_def segs)
qed

lemma map_of_fold_js_set:
  assumes "distinct (map fst m)" and "list_all (\<lambda>(k, v). k \<noteq> ''__proto__'') m"
  shows "map_of (foldl (\<lambda>merged (key, value). js_set merged key value) acc m)
           = map_of acc ++ map_of m"
  using assms
proof (induction m arbitrary: acc)
  case Nil
  then show ?case by simp
next
  case (Cons kv m)
  obtain k v where kv: "kv = (k, v)" by (cases kv)
  from Cons.prems kv have k: "k \<noteq> ''__proto__''" "map_of m k = None"
    by (auto simp: map_of_eq_None_iff)
  from Cons.prems have "map_of (foldl (\<lambda>merged (key, value). js_set merged key value)
        (js_set acc k v) m) = map_of (js_set acc k v) ++ map_of m"
    by (intro Cons.IH) simp_all
  also have "\<dots> = map_of acc ++ map_of ((k, v) # m)"
    using k by (auto simp: map_of_js_set map_add_def fun_eq_iff split: option.splits)
  finally have "map_of (foldl (\<lambda>merged (key, value). js_set merged key value)
        (js_set acc k v) m) = map_of acc ++ map_of ((k, v) # m)" .
  then show ?case unfolding kv by (simp only: foldl_Cons prod.case)
qed

lemma parse_serialize:
  assumes "clean_map m"
  shows "map_of (parseStyleString (serialize m)) = map_of m"
proof -
  from assms have 1: "list_all (\<lambda>(k, v). clean_text k \<and> clean_text v \<and> k \<noteq> ''__proto__'') m"
    and 2: "distinct (map fst m)" by (simp_all add: clean_map_def)
  from 1 have 3: "list_all (\<lambda>(k, v). k \<noteq> ''__proto__'') m"
    by (auto simp: list_all_iff)
  show ?thesis
    by (simp add: parse_serialize_fold[OF 1] map_of_fold_js_set[OF 2 3])
qed

lemma split_on_elems: "x \<in> set (split_on c s) \<Longrightarrow> c \<notin> set x"
proof (induction s arbitrary: x)
  case Nil
  then show ?case by simp
next
  case (Cons a s)
  then show ?case
    by (cases "split_on c s") (auto split: if_splits simp: split_on_nonempty)
qed

lemma segments_no_semi: "part \<in> set (style_segments s) \<Longrightarrow> CHR '';'' \<notin> set part"
  using set_trim split_on_elems[of _ "CHR '';''" s]
  by (fastforce simp: style_segments_def)

lemma before_colon_set: "set (before_colon t) \<subseteq> set t \<and> CHR '':'' \<notin> set (before_colon t)"
  by (auto simp: before_colon_def dest: set_takeWhileD)

lemma after_colon_set: "after_colon t = Some rest \<Longrightarrow> set rest \<subseteq> set t"
proof -
  assume a: "after_colon t = Some rest"
  then obtain x where "dropWhile (\<lambda>c. c \<noteq> CHR '':'') t = x # rest"
    by (auto simp: after_colon_def split: list.splits)
  then have "set rest \<subseteq> set (dropWhile (\<lambda>c. c \<noteq> CHR '':'') t)" by auto
  then show ?thesis using set_dropWhileD by fastforce
qed

lemma clean_trim_before:
  assumes "CHR '';'' \<notin> set t" and "trim (before_colon t) \<noteq> []"
  shows "clean_text (trim (before_colon t))"
proof -
  have "set (trim (before_colon t)) \<subseteq> set (before_colon t)" by (rule set_trim)
  with before_colon_set[of t] assms(1)
  have "CHR '';'' \<notin> set (trim (before_colon t))" "CHR '':'' \<notin> set (trim (before_colon t))"
    by auto
  with trim_ends[OF assms(2)] assms(2) show ?thesis
    by (simp add: clean_text_def)
qed

lemma set_insert_index: "set (insert_index k v obj) = insert (k, v) (set obj)"
  by (induction k v obj rule: insert_index.induct) auto

lemma distinct_insert_index:
  "distinct (map fst obj) \<Longrightarrow> k \<notin> fst ` set obj \<Longrightarrow> distinct (map fst (insert_index k v obj))"
proof (induction k v obj rule: insert_index.induct)
  case (1 k v)
  then show ?case by simp
next
  case (2 k v k' v' rest)
  then show ?case
    by (cases "is_array_index k' \<and> digits_value k' < digits_value k")
       (force simp: set_insert_index)+
qed

lemma fst_replace:
  "map fst (map (\<lambda>(k', v'). if k' = k then (k', v) else (k', v')) acc) = map fst acc"
  by (induction acc) auto

lemma set_replace:
  "e \<in> set (map (\<lambda>(k', v'). if k' = k then (k', v) else (k', v')) acc)
   \<Longrightarrow> e \<in> set acc \<or> e = (k, v)"
  by (induction acc) (auto split: if_splits)

lemma js_set_clean:
  assumes "clean_map acc" and "clean_text k" and "clean_text v"
  shows "clean_map (js_set acc k v)"
proof -
  let ?ok = "\<lambda>(k, v). clean_text k \<and> clean_text v \<and> k \<noteq> ''__proto__''"
  from assms(1) have d: "distinct (map fst acc)" and a: "\<forall>e \<in> set acc. ?ok e"
    by (simp_all add: clean_map_def list_all_iff)
  have own: "has_own acc k \<longleftrightarrow> k \<in> fst ` set acc"
    by (simp add: has_own_def map_of_eq_None_iff)
  consider (proto) "k = ''__proto__''"
    | (own) "k \<noteq> ''__proto__''" "has_own acc k"
    | (index) "k \<noteq> ''__proto__''" "\<not> has_own acc k" "is_array_index k"
    | (other) "k \<noteq> ''__proto__''" "\<not> has_own acc k" "\<not> is_array_index k"
    by blast
  then show ?thesis
  proof cases
    case proto
    then show ?thesis using assms(1) by (simp add: js_set_def)
  next
    case own
    have "\<forall>e \<in> set (map (\<lambda>(k', v'). if k' = k then (k', v) else (k', v')) acc). ?ok e"
      using a assms(2,3) own(1) set_replace[of _ k v acc] by blast
    moreover have "distinct (map fst (map (\<lambda>(k', v'). if k' = k then (k', v) else (k', v')) acc))"
      using d by (simp only: fst_replace)
    ultimately show ?thesis
      using own unfolding js_set_def clean_map_def list_all_iff by simp
  next
    case index
    have "\<forall>e \<in> set (insert_index k v acc). ?ok e"
      using a assms(2,3) index(1) by (simp add: set_insert_index)
    moreover have "distinct (map fst (insert_index k v acc))"
      using d index(2) own by (intro distinct_insert_index) simp_all
    ultimately show ?thesis
      using index by (simp add: js_set_def clean_map_def list_all_iff)
  next
    case other
    have "k \<notin> fst ` set acc" using other(2) own by simp
    then show ?thesis
      using other d a assms(2,3) by (simp add: js_set_def clean_map_def list_all_iff)
  qed
qed

lemma parse_step_clean:
  assumes "clean_map acc" and "CHR '';'' \<notin> set part"
  shows "clean_map (case segment_fields part of
                 (prop, value) \<Rightarrow>
                   if truthy_str prop \<and> truthy_str value
                   then js_set acc (the prop) (the value) else acc)"
proof (cases "after_colon part")
  case None
  then show ?thesis
    using assms(1) split_on_fields[of part]
    by (simp add: segment_fields_def truthy_str_def nth_opt_def split: if_splits)
next
  case (Some rest)
  with after_colon_set assms(2) have r: "CHR '';'' \<notin> set rest" by blast
  have f: "segment_fields part = (Some (trim (before_colon part)), Some (trim (before_colon rest)))"
    using split_on_fields[of part] Some
    by (auto simp: segment_fields_def nth_opt_def split: if_splits)
  show ?thesis
    using assms clean_trim_before[OF assms(2)] clean_trim_before[OF r]
    by (simp add: f truthy_str_def js_set_clean)
qed

lemma parse_clean: "clean_map (parseStyleString s)"
proof -
  have "clean_map (foldl (\<lambda>acc part.
              (case segment_fields part of
                 (prop, value) \<Rightarrow>
                   if truthy_str prop \<and> truthy_str value
                   then js_set acc (the prop) (the value) else acc)) acc segs)"
    if "clean_map acc" and "\<forall>part \<in> set segs. CHR '';'' \<notin> set part" for acc segs
    using that
  proof (induction segs arbitrary: acc)
    case Nil
    then show ?case by simp
  next
    case (Cons part segs)
    from Cons.prems have "clean_map (case segment_fields part of
                 (prop, value) \<Rightarrow>
                   if truthy_str prop \<and> truthy_str value
                   then js_set acc (the prop) (the value) else acc)"
      by (intro parse_step_clean) simp_all
    with Cons.IH Cons.prems(2) show ?case by simp
  qed
  moreover have "clean_map []" by (simp add: clean_map_def)
  ultimately show ?thesis
    unfolding parseStyleString_def using segments_no_semi by blast
qed

lemma fold_js_set_clean:
  assumes "clean_map acc"
    and "list_all (\<lambda>(k, v). clean_text k \<and> clean_text v) u"
  shows "clean_map (foldl (\<lambda>merged (key, value). js_set merged key value) acc u)"
  using assms
  by (induction u arbitrary: acc) (auto simp: js_set_clean)


section \<open>Properties of the rounding to a double\<close>

lemma pow2_pos: "0 < pow2 e"
  by (simp add: pow2_def power_int_def)

lemma pow2_mono: "a \<le> b \<Longrightarrow> pow2 a \<le> pow2 b"
  by (simp add: pow2_def power_int_increasing)

lemma pow2_nat: "pow2 (int k) = 2 ^ k"
  by (simp add: pow2_def)

lemma pow2_diff: "pow2 (a - b) = pow2 a / pow2 b"
  by (simp add: pow2_def power_int_diff)

lemma pow2_add: "pow2 (a + b) = pow2 a * pow2 b"
  by (simp add: pow2_def power_int_add)

lemma pow2_le_imp_less: "pow2 a \<le> x \<Longrightarrow> x < pow2 b \<Longrightarrow> a < b"
proof (rule ccontr)
  assume 1: "pow2 a \<le> x" and 2: "x < pow2 b" and "\<not> a < b"
  then have "pow2 b \<le> pow2 a" by (simp add: pow2_mono)
  with 1 2 show False by simp
qed

lemma rat_exponent_bounds:
  assumes "x \<noteq> 0"
  shows "pow2 (rat_exponent x) \<le> \<bar>x\<bar> \<and> \<bar>x\<bar> < pow2 (rat_exponent x + 1)"
proof -
  obtain a b where q: "quotient_of \<bar>x\<bar> = (a, b)" by (cases "quotient_of \<bar>x\<bar>")
  then have b: "0 < b" and x: "\<bar>x\<bar> = of_int a / of_int b"
    by (simp_all add: quotient_of_denom_pos quotient_of_div)
  from assms have "0 < \<bar>x\<bar>" by simp
  with x b have a: "0 < a" by (simp add: zero_less_divide_iff)
  define na where "na = nat (bitlen a - 1)"
  define nb where "nb = nat (bitlen b - 1)"
  have la: "bitlen a = int na + 1" and lb: "bitlen b = int nb + 1"
    using a b bitlen_eq_zero_iff[of a] bitlen_eq_zero_iff[of b] bitlen_nonneg[of a] bitlen_nonneg[of b]
    unfolding na_def nb_def by linarith+
  have "2 ^ na \<le> a" "a < 2 ^ (na + 1)" "2 ^ nb \<le> b" "b < 2 ^ (nb + 1)"
    using bitlen_bounds[OF a] bitlen_bounds[OF b] by (simp_all add: la lb nat_add_distrib)
  then have A: "(2::rat) ^ na \<le> of_int a" "of_int a < (2::rat) ^ (na + 1)"
    and B: "(2::rat) ^ nb \<le> of_int b" "of_int b < (2::rat) ^ (nb + 1)"
    by (metis of_int_le_iff of_int_numeral of_int_power,
        metis of_int_less_iff of_int_numeral of_int_power,
        metis of_int_le_iff of_int_numeral of_int_power,
        metis of_int_less_iff of_int_numeral of_int_power)
  let ?d = "bitlen a - bitlen b"
  have d: "?d = int na - int nb" by (simp add: la lb)
  have "pow2 (?d - 1) = 2 ^ na / 2 ^ (nb + 1)"
  proof -
    have "?d - 1 = int na - int (nb + 1)" by (simp add: d)
    then show ?thesis by (simp only: pow2_diff pow2_nat)
  qed
  also have "\<dots> \<le> of_int a / of_int b"
    using A B b a by (intro frac_le) simp_all
  finally have low: "pow2 (?d - 1) \<le> \<bar>x\<bar>" by (simp add: x)
  have "of_int a / of_int b < (2::rat) ^ (na + 1) / 2 ^ nb"
    using A B b a by (intro frac_less) simp_all
  also have "\<dots> = pow2 (?d + 1)"
  proof -
    have "?d + 1 = int (na + 1) - int nb" by (simp add: d)
    then show ?thesis by (simp only: pow2_diff pow2_nat)
  qed
  finally have up: "\<bar>x\<bar> < pow2 (?d + 1)" by (simp add: x)
  show ?thesis
    using low up by (cases "pow2 ?d \<le> \<bar>x\<bar>") (simp_all add: rat_exponent_def q)
qed

lemma rat_exponent_eqI:
  assumes "pow2 e \<le> \<bar>x\<bar>" and "\<bar>x\<bar> < pow2 (e + 1)"
  shows "rat_exponent x = e"
proof -
  from assms(1) pow2_pos[of e] have "x \<noteq> 0" by auto
  from rat_exponent_bounds[OF this]
  have 1: "pow2 (rat_exponent x) \<le> \<bar>x\<bar>" and 2: "\<bar>x\<bar> < pow2 (rat_exponent x + 1)" by simp_all
  from pow2_le_imp_less[OF 1 assms(2)] pow2_le_imp_less[OF assms(1) 2]
  show ?thesis by simp
qed

lemma round_half_even_eqI: "\<bar>z - of_int n\<bar> < 1 / 2 \<Longrightarrow> round_half_even z = n"
proof -
  assume a: "\<bar>z - of_int n\<bar> < 1 / 2"
  consider "of_int n \<le> z" | "z < of_int n" by linarith
  then show ?thesis
  proof cases
    case 1
    with a have "\<lfloor>z\<rfloor> = n" by (intro floor_unique) linarith+
    with a 1 show ?thesis by (simp add: round_half_even_def Let_def)
  next
    case 2
    with a have f: "\<lfloor>z\<rfloor> = n - 1" by (intro floor_unique) (simp, linarith+)
    with a 2 show ?thesis by (simp add: round_half_even_def Let_def) 
  qed
qed

lemma round_half_even_error: "\<bar>of_int (round_half_even z) - z\<bar> \<le> 1 / 2"
proof -
  have "of_int \<lfloor>z\<rfloor> \<le> z" "z < of_int \<lfloor>z\<rfloor> + 1" by linarith+
  then show ?thesis
    by (auto simp: round_half_even_def Let_def)
qed


lemma pow2_le_imp_le: "pow2 a \<le> x \<Longrightarrow> x \<le> pow2 b \<Longrightarrow> a \<le> b"
proof (rule ccontr)
  assume 1: "pow2 a \<le> x" and 2: "x \<le> pow2 b" and "\<not> a \<le> b"
  then have "b + 1 \<le> a" by simp
  then have "pow2 (b + 1) \<le> pow2 a" by (rule pow2_mono)
  moreover have "pow2 (b + 1) = 2 * pow2 b" by (simp add: pow2_def power_int_add)
  ultimately show False using 1 2 pow2_pos[of b] by linarith
qed

lemma round_half_even_ge_floor: "\<lfloor>z\<rfloor> \<le> round_half_even z"
  by (simp add: round_half_even_def Let_def)

lemma round_half_even_of_int: "round_half_even (of_int m) = m"
  by (rule round_half_even_eqI) simp

lemma fl_eqI:
  assumes "pow2 e \<le> \<bar>x\<bar>" and "\<bar>x\<bar> < pow2 (e + 1)" and "- 1022 \<le> e"
    and "\<bar>x / pow2 (e - 52) - of_int n\<bar> < 1 / 2"
    and "\<bar>of_int n * pow2 (e - 52)\<bar> < 2 ^ 1024"
  shows "fl x = Fin (of_int n * pow2 (e - 52))"
proof -
  from assms(1) pow2_pos[of e] have nz: "x \<noteq> 0" by auto
  have e: "rat_exponent x = e" using assms(1,2) by (rule rat_exponent_eqI)
  have m: "max e (- 1022) = e" using assms(3) by simp
  have r: "round_half_even (x / pow2 (e - 52)) = n"
    using assms(4) by (rule round_half_even_eqI)
  show ?thesis
    using nz assms(5) by (simp add: fl_def e m r Let_def)
qed

lemma fl_abs_error:
  assumes "\<bar>x\<bar> \<le> 2 ^ k" and "k \<le> 1023"
  shows "\<exists>y. fl x = Fin y \<and> \<bar>y - x\<bar> \<le> 2 ^ k / 2 ^ 53"
proof (cases "x = 0")
  case True
  then show ?thesis by (simp add: fl_def)
next
  case False
  define e where "e = max (rat_exponent x) (- 1022)"
  define q where "q = pow2 (e - 52)"
  define y where "y = of_int (round_half_even (x / q)) * q"
  have "pow2 (rat_exponent x) \<le> \<bar>x\<bar>" using rat_exponent_bounds[OF False] by simp
  with assms(1) have "rat_exponent x \<le> int k"
    by (intro pow2_le_imp_le[of _ "\<bar>x\<bar>"]) (simp_all add: pow2_nat)
  then have ek: "e \<le> int k" by (simp add: e_def)
  have qpos: "0 < q" by (simp add: q_def pow2_pos)
  have "q \<le> pow2 (int k - 52)" unfolding q_def using ek by (intro pow2_mono) simp
  also have "\<dots> = 2 ^ k / 2 ^ 52" by (simp add: pow2_diff pow2_nat) (simp add: pow2_def)
  finally have qk: "q \<le> 2 ^ k / 2 ^ 52" .
  have "\<bar>y - x\<bar> = \<bar>of_int (round_half_even (x / q)) - x / q\<bar> * q"
  proof -
    have "y - x = (of_int (round_half_even (x / q)) - x / q) * q"
      using qpos by (simp add: y_def field_simps)
    then show ?thesis using qpos by (simp add: abs_mult)
  qed
  also have "\<dots> \<le> (1 / 2) * q"
    using round_half_even_error[of "x / q"] qpos by (intro mult_right_mono) simp_all
  also have "\<dots> \<le> 2 ^ k / 2 ^ 53" using qk by simp
  finally have err: "\<bar>y - x\<bar> \<le> 2 ^ k / 2 ^ 53" .
  have "(2::rat) ^ k \<le> 2 ^ 1023" using assms(2) by (intro power_increasing) simp_all
  moreover have "\<bar>y\<bar> \<le> \<bar>x\<bar> + 2 ^ k / 2 ^ 53" using err by linarith
  ultimately have "\<bar>y\<bar> < 2 ^ 1024" using assms(1) by simp
  then have "fl x = Fin y"
    using False by (simp add: fl_def Let_def e_def[symmetric] q_def[symmetric] y_def[symmetric])
  with err show ?thesis by blast
qed

lemma fl_representable:
  assumes "\<bar>n\<bar> < 2 ^ 53" and "- 1074 \<le> k" and "\<bar>of_int n * pow2 k\<bar> < 2 ^ 1024"
  shows "fl (of_int n * pow2 k) = Fin (of_int n * pow2 k)"
proof (cases "n = 0")
  case True
  then show ?thesis by (simp add: fl_def)
next
  case False
  let ?x = "of_int n * pow2 k :: rat"
  have nz: "?x \<noteq> 0" using False pow2_pos[of k] by simp
  define e where "e = max (rat_exponent ?x) (- 1022)"
  have "\<bar>?x\<bar> = of_int \<bar>n\<bar> * pow2 k" using pow2_pos[of k] by (simp add: abs_mult)
  also have "\<dots> < 2 ^ 53 * pow2 k"
  proof -
    have "(of_int \<bar>n\<bar> :: rat) < of_int (2 ^ 53)" using assms(1) by (simp only: of_int_less_iff)
    then show ?thesis using pow2_pos[of k] by simp
  qed
  also have "\<dots> = pow2 (53 + k)" by (simp add: pow2_add) (simp add: pow2_def)
  finally have "\<bar>?x\<bar> < pow2 (53 + k)" .
  with rat_exponent_bounds[OF nz] have "rat_exponent ?x < 53 + k"
    by (intro pow2_le_imp_less[of _ "\<bar>?x\<bar>"]) simp_all
  with assms(2) have ek: "e - 52 \<le> k" by (simp add: e_def)
  define j where "j = nat (k - (e - 52))"
  have "pow2 k = pow2 (e - 52) * 2 ^ j"
  proof -
    have "k = (e - 52) + int j" using ek by (simp add: j_def)
    then have "pow2 k = pow2 (e - 52) * pow2 (int j)" by (metis pow2_add)
    then show ?thesis by (simp add: pow2_nat)
  qed
  then have "?x / pow2 (e - 52) = of_int (n * 2 ^ j)"
    using pow2_pos[of "e - 52"] by simp
  then have "round_half_even (?x / pow2 (e - 52)) = n * 2 ^ j"
    by (simp only: round_half_even_of_int)
  moreover have "of_int (n * 2 ^ j) * pow2 (e - 52) = ?x"
    using \<open>pow2 k = pow2 (e - 52) * 2 ^ j\<close> by simp
  ultimately have r: "of_int (round_half_even (?x / pow2 (e - 52))) * pow2 (e - 52) = ?x"
    by simp
  have "fl ?x = (if 2 ^ 1024 \<le> \<bar>of_int (round_half_even (?x / pow2 (e - 52))) * pow2 (e - 52)\<bar>
                 then (if 0 < of_int (round_half_even (?x / pow2 (e - 52))) * pow2 (e - 52)
                       then PosInf else NegInf)
                 else Fin (of_int (round_half_even (?x / pow2 (e - 52))) * pow2 (e - 52)))"
    using nz unfolding fl_def Let_def e_def by (simp only: if_False)
  also have "\<dots> = Fin ?x"
    unfolding r using assms(3) by (simp only: not_le[symmetric] if_False)
  finally show ?thesis .
qed

lemma fl_overflow:
  assumes "2 ^ 1024 \<le> x"
  shows "fl x = PosInf"
proof -
  have xpos: "0 < x" using assms by (meson less_le_trans zero_less_numeral zero_less_power)
  then have nz: "x \<noteq> 0" by simp
  define e where "e = rat_exponent x"
  have b: "pow2 e \<le> x" "x < pow2 (e + 1)"
    using rat_exponent_bounds[OF nz] xpos by (simp_all add: e_def)
  have "pow2 1024 \<le> x" using assms by (simp add: pow2_def)
  from this b(2) have "1024 < e + 1" by (rule pow2_le_imp_less)
  then have e: "1024 \<le> e" by simp
  then have m: "max e (- 1022) = e" by simp
  define q where "q = pow2 (e - 52)"
  have qpos: "0 < q" by (simp add: q_def pow2_pos)
  have pe: "pow2 e = 2 ^ 52 * q" by (simp add: q_def pow2_diff) (simp add: pow2_def)
  have "of_int (2 ^ 52) \<le> x / q" using b(1) qpos by (simp add: pe field_simps)
  then have "2 ^ 52 \<le> \<lfloor>x / q\<rfloor>" by (simp only: le_floor_iff)
  with round_half_even_ge_floor[of "x / q"] have "2 ^ 52 \<le> round_half_even (x / q)" by linarith
  then have "(of_int (2 ^ 52) :: rat) \<le> of_int (round_half_even (x / q))"
    by (simp only: of_int_le_iff)
  then have "2 ^ 52 * q \<le> of_int (round_half_even (x / q)) * q"
    using qpos by simp
  moreover have "(2::rat) ^ 1024 \<le> pow2 e"
    using pow2_mono[OF e] by (simp add: pow2_def)
  ultimately have y: "2 ^ 1024 \<le> of_int (round_half_even (x / q)) * q" using pe by linarith
  then have "0 < of_int (round_half_even (x / q)) * q"
    by (meson less_le_trans zero_less_numeral zero_less_power)
  with y show ?thesis
    using nz by (simp add: fl_def Let_def e_def[symmetric] m q_def[symmetric] abs_if)
qed

lemma fl_nonneg: "0 \<le> x \<Longrightarrow> fl x = Fin y \<Longrightarrow> 0 \<le> y"
proof -
  assume x: "0 \<le> x" and f: "fl x = Fin y"
  show ?thesis
  proof (cases "x = 0")
    case True
    with f show ?thesis by (simp add: fl_def)
  next
    case False
    define q where "q = pow2 (max (rat_exponent x) (- 1022) - 52)"
    have qpos: "0 < q" by (simp add: q_def pow2_pos)
    then have "0 \<le> x / q" using x by simp
    then have "0 \<le> \<lfloor>x / q\<rfloor>" by simp
    with round_half_even_ge_floor[of "x / q"] have "0 \<le> round_half_even (x / q)" by linarith
    then have "0 \<le> of_int (round_half_even (x / q)) * q" using qpos by simp
    moreover have "y = of_int (round_half_even (x / q)) * q"
      using f False by (simp add: fl_def Let_def q_def[symmetric] split: if_splits)
    ultimately show ?thesis by simp
  qed
qed

section \<open>Properties of the unit codec\<close>

lemma PX_PER_POINT_eq: "PX_PER_POINT = Fin (6004799503160661 / 4503599627370496)"
proof -
  have "fl (4 / 3) = Fin (of_int 6004799503160661 * pow2 (0 - 52))"
    by (rule fl_eqI) (simp_all add: pow2_def)
  then show ?thesis by (simp add: PX_PER_POINT_def pow2_def)
qed

lemma PT_PER_PX_eq: "PT_PER_PX = Fin (3 / 4)"
proof -
  have "fl (4503599627370496 / 6004799503160661) = Fin (of_int 6755399441055744 * pow2 (- 1 - 52))"
    by (rule fl_eqI) (simp_all add: pow2_def)
  then show ?thesis by (simp add: PT_PER_PX_def PX_PER_POINT_eq pow2_def)
qed

lemma fl_int: "\<bar>n\<bar> < 2 ^ 53 \<Longrightarrow> fl (of_int n) = Fin (of_int n)"
proof -
  assume a: "\<bar>n\<bar> < 2 ^ 53"
  then have "\<bar>of_int n :: rat\<bar> < 2 ^ 53"
    by (metis of_int_abs of_int_less_iff of_int_numeral of_int_power)
  then have "\<bar>of_int n * pow2 0 :: rat\<bar> < 2 ^ 1024" by (simp add: pow2_def)
  with a fl_representable[of n 0] show ?thesis by (simp add: pow2_def)
qed

lemma floor_half_cases:
  "\<lfloor>w + 1 / 2\<rfloor> = (if w < 0 \<and> w - of_int \<lfloor>w\<rfloor> = 1 / 2 then round_half_away w + 1 else round_half_away w)"
  for w :: rat
proof -
  define f where "f = \<lfloor>w\<rfloor>"
  define r where "r = w - of_int f"
  have r: "0 \<le> r" "r < 1" and w: "w = of_int f + r"
    unfolding r_def f_def by linarith+
  have up: "\<lfloor>w + 1 / 2\<rfloor> = (if r < 1 / 2 then f else f + 1)"
    using r by (auto simp: w intro!: floor_unique)
  have down: "\<lfloor>- w + 1 / 2\<rfloor> = (if r \<le> 1 / 2 then - f else - f - 1)"
    using r by (auto simp: w intro!: floor_unique)
  show ?thesis
  proof (cases "w < 0")
    case True
    then have "round_half_away w = - \<lfloor>- w + 1 / 2\<rfloor>" by (simp add: round_half_away_def)
    then show ?thesis
      using True up down by (auto simp: r_def f_def)
  next
    case False
    then show ?thesis by (simp add: round_half_away_def)
  qed
qed

lemma toFixedNumber_Fin:
  "toFixedNumber (Fin v) = Some (num_div (Math_round (fl (v * 100))) (Fin 100))"
  by (simp add: toFixedNumber_def)

lemma toFixedNumber_cases:
  "toFixedNumber (Fin v) =
     (case num_mul (Fin v) (Fin 100) of
        Fin w \<Rightarrow> Some (num_div (Fin (of_int (if w < 0 \<and> w - of_int \<lfloor>w\<rfloor> = 1 / 2
                                     then round_half_away w + 1 else round_half_away w))) (Fin 100))
      | PosInf \<Rightarrow> Some PosInf
      | NegInf \<Rightarrow> Some NegInf
      | NaN \<Rightarrow> Some NaN)"
proof (cases "fl (v * 100)")
  case (Fin w)
  then show ?thesis
    by (simp only: toFixedNumber_Fin num_mul.simps number.case Math_round.simps
        floor_half_cases[of w])
qed (simp_all add: toFixedNumber_Fin inf_of_sign_def)

lemma fl_near_distinct:
  assumes "\<bar>x\<bar> \<le> 1" and "\<bar>y\<bar> \<le> 1" and "1 / 2 ^ 52 < \<bar>x - y\<bar>"
  shows "fl x \<noteq> fl y"
proof -
  from fl_abs_error[of x 0] assms(1) obtain a where a: "fl x = Fin a" "\<bar>a - x\<bar> \<le> 1 / 2 ^ 53"
    by auto
  from fl_abs_error[of y 0] assms(2) obtain b where b: "fl y = Fin b" "\<bar>b - y\<bar> \<le> 1 / 2 ^ 53"
    by auto
  have "(1::rat) / 2 ^ 52 = 1 / 2 ^ 53 + 1 / 2 ^ 53" by simp
  with a(2) b(2) assms(3) have "a \<noteq> b" by linarith
  with a(1) b(1) show ?thesis by simp
qed

lemma fl_err_small:
  assumes "\<bar>x\<bar> \<le> 549755813888"
  shows "\<exists>y. fl x = Fin y \<and> \<bar>y - x\<bar> \<le> 1 / 16384"
  using fl_abs_error[of x 39] assms by simp

lemma toFixed_err:
  assumes "\<bar>x\<bar> \<le> 4294967296"
  shows "\<exists>k r. toFixedNumber (Fin x) = Some (Fin r)
             \<and> fl (of_int k / 100) = Fin r
             \<and> \<bar>of_int k - 100 * x\<bar> \<le> 1 / 2 + 1 / 16384
             \<and> \<bar>r - of_int k / 100\<bar> \<le> 1 / 16384"
proof -
  have "\<bar>x * 100\<bar> \<le> 549755813888" using assms by linarith
  from fl_err_small[OF this] obtain w where w: "fl (x * 100) = Fin w"
    and we: "\<bar>w - x * 100\<bar> \<le> 1 / 16384" by auto
  define k where "k = \<lfloor>w + 1 / 2\<rfloor>"
  have kw: "\<bar>of_int k - w\<bar> \<le> 1 / 2" unfolding k_def by linarith
  have "\<bar>of_int k / 100 :: rat\<bar> \<le> 549755813888"
    using kw we assms by linarith
  from fl_err_small[OF this] obtain r where r: "fl (of_int k / 100) = Fin r"
    and re: "\<bar>r - of_int k / 100\<bar> \<le> 1 / 16384" by auto
  have "toFixedNumber (Fin x) = Some (Fin r)"
    using r by (simp add: toFixedNumber_Fin w k_def)
  moreover have "\<bar>of_int k - 100 * x\<bar> \<le> 1 / 2 + 1 / 16384"
    using kw we by linarith
  ultimately show ?thesis using r re by blast
qed

lemma toFixed_exact:
  assumes "\<bar>x\<bar> \<le> 4294967296" and "\<bar>100 * x - of_int K\<bar> < 1 / 2 - 1 / 16384"
  shows "toFixedNumber (Fin x) = Some (fl (of_int K / 100))"
proof -
  have "\<bar>x * 100\<bar> \<le> 549755813888" using assms(1) by linarith
  from fl_err_small[OF this] obtain w where w: "fl (x * 100) = Fin w"
    and we: "\<bar>w - x * 100\<bar> \<le> 1 / 16384" by auto
  have "of_int K \<le> w + 1 / 2" "w + 1 / 2 < of_int K + 1"
    using we assms(2) by linarith+
  then have "\<lfloor>w + 1 / 2\<rfloor> = K" by (rule floor_unique)
  then show ?thesis
    by (simp add: toFixedNumber_Fin w)
qed

lemma mul_PX:
  assumes "\<bar>p\<bar> \<le> 2147483648"
  shows "\<exists>a. num_mul (Fin p) PX_PER_POINT = Fin a \<and> \<bar>a - p * (4 / 3)\<bar> \<le> 1 / 8192
             \<and> \<bar>a\<bar> \<le> 4294967296"
proof -
  define c :: rat where "c = 6004799503160661 / 4503599627370496"
  have cd: "4 / 3 - c = 1 / 13510798882111488" by (simp add: c_def)
  have "\<bar>p * c - p * (4 / 3)\<bar> = \<bar>p\<bar> * (1 / 13510798882111488)"
  proof -
    have "p * c - p * (4 / 3) = - (p * (4 / 3 - c))" by (simp add: algebra_simps)
    then show ?thesis by (simp only: cd abs_minus abs_mult)
  qed
  also have "\<dots> \<le> 2147483648 * (1 / 13510798882111488)"
    using assms by (intro mult_right_mono) simp_all
  also have "\<dots> \<le> 1 / 16384" by simp
  finally have pc: "\<bar>p * c - p * (4 / 3)\<bar> \<le> 1 / 16384" .
  have "\<bar>p * c\<bar> \<le> 549755813888" using assms pc by linarith
  from fl_err_small[OF this] obtain a where a: "fl (p * c) = Fin a"
    and ae: "\<bar>a - p * c\<bar> \<le> 1 / 16384" by auto
  have "num_mul (Fin p) PX_PER_POINT = Fin a" using a by (simp add: PX_PER_POINT_eq c_def)
  moreover have "\<bar>a - p * (4 / 3)\<bar> \<le> 1 / 8192" using ae pc by linarith
  moreover have "\<bar>a\<bar> \<le> 4294967296" using ae pc assms by linarith
  ultimately show ?thesis by blast
qed

lemma mul_PT:
  assumes "\<bar>q\<bar> \<le> 4294967296"
  shows "\<exists>b. num_mul (Fin q) PT_PER_PX = Fin b \<and> \<bar>b - q * (3 / 4)\<bar> \<le> 1 / 16384
             \<and> \<bar>b\<bar> \<le> 4294967296"
proof -
  have "\<bar>q * (3 / 4)\<bar> \<le> 549755813888" using assms by linarith
  from fl_err_small[OF this] obtain b where b: "fl (q * (3 / 4)) = Fin b"
    and be: "\<bar>b - q * (3 / 4)\<bar> \<le> 1 / 16384" by auto
  have "num_mul (Fin q) PT_PER_PX = Fin b" using b by (simp add: PT_PER_PX_eq)
  moreover have "\<bar>b\<bar> \<le> 4294967296" using be assms by linarith
  ultimately show ?thesis using be by blast
qed

lemma nearest_four_thirds:
  fixes k :: int
  shows "\<bar>3 * ((8 * k + 3) div 6) - 4 * k\<bar> \<le> 1"
  by presburger

lemma roundTrip_fixed:
  assumes "\<bar>of_int k :: rat\<bar> \<le> 137438953472" and "fl (of_int k / 100) = Fin r"
  shows "roundTrip (Fin r) = Some (Fin r)"
proof -
  have "\<bar>of_int k / 100 :: rat\<bar> \<le> 549755813888" using assms(1) by linarith
  from fl_err_small[OF this] assms(2)
  have re: "\<bar>r - of_int k / 100\<bar> \<le> 1 / 16384" by auto
  have rb: "\<bar>r\<bar> \<le> 2147483648" using re assms(1) by linarith
  from mul_PX[OF rb] obtain a where a: "num_mul (Fin r) PX_PER_POINT = Fin a"
    and ae: "\<bar>a - r * (4 / 3)\<bar> \<le> 1 / 8192" and ab: "\<bar>a\<bar> \<le> 4294967296" by auto
  define M where "M = (8 * k + 3) div 6"
  have "\<bar>3 * M - 4 * k\<bar> \<le> 1" unfolding M_def by (rule nearest_four_thirds)
  then have "\<bar>of_int (3 * M - 4 * k) :: rat\<bar> \<le> 1" by (metis of_int_1 of_int_abs of_int_le_iff)
  then have Mk: "\<bar>3 * of_int M - 4 * of_int k :: rat\<bar> \<le> 1" by simp
  have "\<bar>100 * a - of_int M\<bar> < 1 / 2 - 1 / 16384"
    using ae re Mk by linarith
  from toFixed_exact[OF ab this]
  have px: "ptToPx (Fin r) = Some (fl (of_int M / 100))" by (simp add: ptToPx_def a)
  have "\<bar>of_int M / 100 :: rat\<bar> \<le> 549755813888" using Mk assms(1) by linarith
  from fl_err_small[OF this] obtain q where q: "fl (of_int M / 100) = Fin q"
    and qe: "\<bar>q - of_int M / 100\<bar> \<le> 1 / 16384" by auto
  have qb: "\<bar>q\<bar> \<le> 4294967296" using qe Mk assms(1) by linarith
  from mul_PT[OF qb] obtain b where b: "num_mul (Fin q) PT_PER_PX = Fin b"
    and be: "\<bar>b - q * (3 / 4)\<bar> \<le> 1 / 16384" and bb: "\<bar>b\<bar> \<le> 4294967296" by auto
  have "\<bar>100 * b - of_int k\<bar> < 1 / 2 - 1 / 16384"
    using be qe Mk by linarith
  from toFixed_exact[OF bb this]
  have "pxToPt (Fin q) = Some (Fin r)" by (simp add: pxToPt_def b assms(2))
  then show ?thesis
    by (simp add: roundTrip_def px q pxToPt_opt_def)
qed

lemma roundTrip_bound:
  assumes "\<bar>p\<bar> \<le> 1073741824"
  shows "\<exists>r. roundTrip (Fin p) = Some (Fin r) \<and> \<bar>r - p\<bar> \<le> 1 / 100
             \<and> roundTrip (Fin r) = Some (Fin r)"
proof -
  have "\<bar>p\<bar> \<le> 2147483648" using assms by linarith
  from mul_PX[OF this] obtain a where a: "num_mul (Fin p) PX_PER_POINT = Fin a"
    and ae: "\<bar>a - p * (4 / 3)\<bar> \<le> 1 / 8192" and ab: "\<bar>a\<bar> \<le> 4294967296" by auto
  from toFixed_err[OF ab] obtain k1 q where q: "toFixedNumber (Fin a) = Some (Fin q)"
    and k1: "\<bar>of_int k1 - 100 * a\<bar> \<le> 1 / 2 + 1 / 16384"
    and qe: "\<bar>q - of_int k1 / 100\<bar> \<le> 1 / 16384" by auto
  have px: "ptToPx (Fin p) = Some (Fin q)" by (simp add: ptToPx_def a q)
  have qp: "\<bar>q - p * (4 / 3)\<bar> \<le> 1 / 200 + 4 / 16384" using ae k1 qe by linarith
  have qb: "\<bar>q\<bar> \<le> 4294967296" using qp assms by linarith
  from mul_PT[OF qb] obtain b where b: "num_mul (Fin q) PT_PER_PX = Fin b"
    and be: "\<bar>b - q * (3 / 4)\<bar> \<le> 1 / 16384" and bb: "\<bar>b\<bar> \<le> 4294967296" by auto
  from toFixed_err[OF bb] obtain k2 r where r: "toFixedNumber (Fin b) = Some (Fin r)"
    and fr: "fl (of_int k2 / 100) = Fin r"
    and k2: "\<bar>of_int k2 - 100 * b\<bar> \<le> 1 / 2 + 1 / 16384"
    and re: "\<bar>r - of_int k2 / 100\<bar> \<le> 1 / 16384" by auto
  have pt: "pxToPt (Fin q) = Some (Fin r)" by (simp add: pxToPt_def b r)
  have 1: "roundTrip (Fin p) = Some (Fin r)"
    by (simp add: roundTrip_def px pxToPt_opt_def pt)
  have 2: "\<bar>r - p\<bar> \<le> 1 / 100" using re k2 be qp by linarith
  have "\<bar>of_int k2 :: rat\<bar> \<le> 137438953472" using k2 be qp assms by linarith
  from roundTrip_fixed[OF this fr] have 3: "roundTrip (Fin r) = Some (Fin r)" .
  from 1 2 3 show ?thesis by blast
qed
section \<open>Properties of the style decoders\<close>

lemma trim_idem: "trim (trim s) = trim s"
proof (cases "trim s = []")
  case True
  have "trim [] = []" by (simp add: trim_def)
  with True show ?thesis by simp
next
  case False
  from trim_ends[OF this] show ?thesis by (simp add: trim_id)
qed

lemma lower_char_iff:
  assumes "(of_char t :: nat) = n" and "97 \<le> n" and "n \<le> 122"
  shows "toLowerCase_char c = t \<longleftrightarrow> c = t \<or> (of_char c :: nat) + 32 = n"
proof -
  define m where "m = (of_char c :: nat)"
  have m: "m < 256" by (simp add: m_def)
  have t: "c = t \<longleftrightarrow> m = n" using assms(1) by (auto simp: m_def)
  have lc: "toLowerCase_char c =
      (if (65 \<le> m \<and> m \<le> 90) \<or> (192 \<le> m \<and> m \<le> 222 \<and> m \<noteq> 215) then char_of (m + 32) else c)"
    by (simp add: toLowerCase_char_def m_def Let_def)
  have "toLowerCase_char c = t \<longleftrightarrow> c = t \<or> m + 32 = n"
  proof (cases "(65 \<le> m \<and> m \<le> 90) \<or> (192 \<le> m \<and> m \<le> 222 \<and> m \<noteq> 215)")
    case True
    have "char_of (m + 32) = t \<longleftrightarrow> m + 32 = n"
      using True m assms(1) by (auto simp: char_of_eq_iff take_bit_eq_mod)
    with True t assms(2,3) show ?thesis by (auto simp: lc)
  next
    case False
    with t assms(2,3) show ?thesis by (auto simp: lc)
  qed
  then show ?thesis by (simp add: m_def)
qed

lemma lower_t: "toLowerCase_char c = CHR ''t'' \<longleftrightarrow> c = CHR ''t'' \<or> c = CHR ''T''"
proof -
  have "(of_char c :: nat) + 32 = 116 \<longleftrightarrow> c = CHR ''T''"
  proof -
    have "(of_char c :: nat) = of_char (CHR ''T'') \<longleftrightarrow> c = CHR ''T''" by (rule of_char_eq_iff)
    then show ?thesis by simp
  qed
  with lower_char_iff[of "CHR ''t''" 116 c] show ?thesis by simp
qed

lemma lower_p: "toLowerCase_char c = CHR ''p'' \<longleftrightarrow> c = CHR ''p'' \<or> c = CHR ''P''"
proof -
  have "(of_char c :: nat) + 32 = 112 \<longleftrightarrow> c = CHR ''P''"
  proof -
    have "(of_char c :: nat) = of_char (CHR ''P'') \<longleftrightarrow> c = CHR ''P''" by (rule of_char_eq_iff)
    then show ?thesis by simp
  qed
  with lower_char_iff[of "CHR ''p''" 112 c] show ?thesis by simp
qed

lemma endsWith_pt: "endsWith (toLowerCase v) ''pt'' = has_pt_suffix v"
proof (cases "rev v")
  case Nil
  then show ?thesis by (simp add: endsWith_def has_pt_suffix_def toLowerCase_def)
next
  case (Cons t r)
  show ?thesis
  proof (cases r)
    case Nil
    with Cons have "v = [t]" by (metis rev_rev_ident rev_singleton_conv)
    then show ?thesis by (simp add: endsWith_def has_pt_suffix_def toLowerCase_def)
  next
    case (Cons p r')
    with \<open>rev v = t # r\<close> have v: "v = rev r' @ [p, t]"
      by (metis append_Cons append_Nil rev.simps(2) rev_rev_ident append_assoc)
    have "has_pt_suffix v \<longleftrightarrow> (t = CHR ''t'' \<or> t = CHR ''T'') \<and> (p = CHR ''p'' \<or> p = CHR ''P'')"
      by (simp add: has_pt_suffix_def v)
    moreover have "endsWith (toLowerCase v) ''pt''
        \<longleftrightarrow> toLowerCase_char p = CHR ''p'' \<and> toLowerCase_char t = CHR ''t''"
      by (simp add: endsWith_def toLowerCase_def v)
    ultimately show ?thesis by (auto simp: lower_t lower_p)
  qed
qed


lemma two_decimals_eq: "two_decimals v = toFixedNumber v"
proof (cases v)
  case (Fin x)
  show ?thesis
    by (cases "fl (x * 100)")
       (simp_all add: Fin two_decimals_def toFixedNumber_def inf_of_sign_def)
qed (simp_all add: two_decimals_def toFixedNumber_def)

lemma four_thirds: "fl (4 / 3) = Fin (6004799503160661 / 4503599627370496)"
  using PX_PER_POINT_eq by (simp add: PX_PER_POINT_def)

lemma pointsToPixels_eq: "pointsToPixels v = ptToPx v"
  by (cases v)
     (simp_all add: pointsToPixels_def ptToPx_def four_thirds PX_PER_POINT_eq two_decimals_eq)

lemma pixelsToPoints_eq: "pixelsToPoints v = pxToPt v"
  by (cases v) (simp_all add: pixelsToPoints_def pxToPt_def PT_PER_PX_eq two_decimals_eq)

lemma decode_eq:
  assumes "v \<noteq> []" and "trim v = v"
  shows "pxToPt_opt (parseCssFontSize v) = decode_font_size v"
proof (cases "parseFloat v")
  case NaN
  with assms show ?thesis
    by (simp add: parseCssFontSize_def decode_font_size_def pxToPt_opt_def)
next
  case PosInf
  with assms show ?thesis
    by (simp add: parseCssFontSize_def decode_font_size_def pxToPt_opt_def endsWith_pt
        pointsToPixels_eq pixelsToPoints_eq ptToPx_def pxToPt_def)
next
  case NegInf
  with assms show ?thesis
    by (simp add: parseCssFontSize_def decode_font_size_def pxToPt_opt_def endsWith_pt
        pointsToPixels_eq pixelsToPoints_eq ptToPx_def pxToPt_def)
next
  case (Fin n)
  with assms show ?thesis
    by (simp add: parseCssFontSize_def decode_font_size_def pxToPt_opt_def endsWith_pt
        pointsToPixels_eq pixelsToPoints_eq split: option.splits)
qed

lemma spec_segment_props:
  assumes "spec_segment seg = Some (p, v)"
  shows "p \<noteq> [] \<and> v \<noteq> [] \<and> trim v = v"
  using assms
  by (auto simp: spec_segment_def Let_def spec_strip_trim trim_idem split: option.splits if_splits)

lemma step_sz:
  "sz_of (xlsx_style_step st seg) =
     (case spec_segment seg of
        None \<Rightarrow> sz_of st
      | Some (p, v) \<Rightarrow>
          if p = ''font-size''
          then (case decode_font_size v of None \<Rightarrow> sz_of st | Some s \<Rightarrow> Some s)
          else sz_of st)"
proof (cases "segment_fields seg")
  case (Pair pr vl)
  show ?thesis
  proof (cases "truthy_str pr \<and> truthy_str vl")
    case False
    with Pair segment_fields_spec[of seg] have "spec_segment seg = None" by auto
    with False Pair show ?thesis
      by (auto simp: xlsx_style_step_def)
  next
    case True
    with Pair segment_fields_spec[of seg] have sp: "spec_segment seg = Some (the pr, the vl)"
      by auto
    from spec_segment_props[OF sp] have v: "the vl \<noteq> []" "trim (the vl) = the vl" by simp_all
    show ?thesis
      using Pair True decode_eq[OF v]
      by (auto simp: sp xlsx_style_step_def Let_def sz_of_def font_or_empty_def
          empty_xlsx_font_def split: option.splits)
  qed
qed

lemma fold_last_size:
  "foldl (\<lambda>acc v. case f v of None \<Rightarrow> acc | Some s \<Rightarrow> Some s) a vs
     = (case last_size (map f vs) of None \<Rightarrow> a | Some s \<Rightarrow> Some s)"
proof (induction vs rule: rev_induct)
  case Nil
  then show ?case by (simp add: last_size_def)
next
  case (snoc x xs)
  show ?case
  proof (cases "f x")
    case None
    then have "last_size (map f (xs @ [x])) = last_size (map f xs)"
      by (simp add: last_size_def)
    with None snoc show ?thesis by simp
  next
    case (Some s)
    then have "last_size (map f (xs @ [x])) = Some s"
      by (simp add: last_size_def)
    with Some show ?thesis by simp
  qed
qed

lemma fold_sz:
  "sz_of (foldl xlsx_style_step st segs) =
     foldl (\<lambda>acc v. case decode_font_size v of None \<Rightarrow> acc | Some s \<Rightarrow> Some s)
       (sz_of st)
       (map snd (filter (\<lambda>d. fst d = ''font-size'') (List.map_filter spec_segment segs)))"
proof (induction segs arbitrary: st)
  case Nil
  then show ?case by (simp add: List.map_filter_simps)
next
  case (Cons seg segs)
  show ?case
    by (simp add: Cons.IH step_sz List.map_filter_simps split: option.splits)
qed

lemma spec_values_empty: "spec_values k [] = []"
proof -
  have "spec_pieces (CHR '';'') [] = [[]]" by (simp add: spec_pieces_split)
  then show ?thesis
    by (simp add: spec_values_def spec_declarations_def spec_segments_def spec_strip_def
        List.map_filter_simps)
qed

lemma xlsx_size_values:
  "xlsx_size (cssToXlsxStyle css)
     = last_size (map decode_font_size (spec_values ''font-size'' css))"
proof (cases "css = []")
  case True
  then show ?thesis
    by (simp add: cssToXlsxStyle_def xlsx_size_def spec_values_empty last_size_def)
next
  case False
  let ?st = "foldl xlsx_style_step \<lparr> xs_font = None, xs_fill = None \<rparr> (style_segments css)"
  have "sz_of \<lparr> xs_font = None, xs_fill = None \<rparr> = None" by (simp add: sz_of_def)
  then have sz: "sz_of ?st = last_size (map decode_font_size (spec_values ''font-size'' css))"
    by (simp add: fold_sz fold_last_size spec_values_def spec_declarations_def spec_segments_eq
        split: option.splits)
  show ?thesis
  proof (cases "xs_font ?st = None \<and> xs_fill ?st = None")
    case True
    then have "sz_of ?st = None" by (simp add: sz_of_def)
    with sz True False show ?thesis by (simp add: cssToXlsxStyle_def xlsx_size_def)
  next
    case nonempty: False
    with False have "cssToXlsxStyle css = Some ?st" by (auto simp: cssToXlsxStyle_def Let_def)
    with sz show ?thesis by (simp add: xlsx_size_def sz_of_def)
  qed
qed

lemma fold_js_set_last:
  assumes "k \<noteq> ''__proto__''"
  shows "map_of (foldl (\<lambda>acc (p, v). js_set acc p v) acc ds) k
         = (if map snd (filter (\<lambda>d. fst d = k) ds) = [] then map_of acc k
            else Some (last (map snd (filter (\<lambda>d. fst d = k) ds))))"
proof (induction ds rule: rev_induct)
  case Nil
  then show ?case by simp
next
  case (snoc d ds)
  obtain p v where d: "d = (p, v)" by (cases d)
  show ?case
    using snoc assms by (auto simp: d map_of_js_set)
qed

lemma parse_values:
  assumes "k \<noteq> ''__proto__''"
  shows "js_get (parseStyleString css) k
           = (if spec_values k css = [] then None else Some (last (spec_values k css)))"
  using fold_js_set_last[OF assms, of "[]" "spec_declarations css"]
  by (simp add: js_get_def parse_decls spec_values_def)

lemma spec_values_props:
  assumes "v \<in> set (spec_values k css)"
  shows "v \<noteq> [] \<and> trim v = v"
proof -
  from assms obtain p where "(p, v) \<in> set (spec_declarations css)"
    by (auto simp: spec_values_def)
  then obtain seg where "spec_segment seg = Some (p, v)"
    by (auto simp: spec_declarations_def List.map_filter_def)
  from spec_segment_props[OF this] show ?thesis by simp
qed

lemma excel_size_get:
  assumes "js_get (parseStyleString css) ''font-size'' = Some v" and "v \<noteq> []" and "trim v = v"
    and "css \<noteq> []"
  shows "excel_size (cssToExcelStyle (Some css)) = decode_font_size v"
  using assms decode_eq[OF assms(2,3)]
  by (auto simp: cssToExcelStyle_def excel_size_def Let_def truthy_str_def
      split: option.splits if_splits prod.splits)

lemma excel_size_none:
  assumes "js_get (parseStyleString css) ''font-size'' = None"
  shows "excel_size (cssToExcelStyle (Some css)) = None"
  using assms
  by (auto simp: cssToExcelStyle_def excel_size_def Let_def truthy_str_def
      split: option.splits if_splits prod.splits)

lemma excel_size_values:
  "excel_size (cssToExcelStyle (Some css))
     = (if spec_values ''font-size'' css = [] then None
        else decode_font_size (last (spec_values ''font-size'' css)))"
proof (cases "spec_values ''font-size'' css = []")
  case True
  then have "js_get (parseStyleString css) ''font-size'' = None"
    by (simp add: parse_values)
  from excel_size_none[OF this] True show ?thesis by simp
next
  case False
  then have "last (spec_values ''font-size'' css) \<in> set (spec_values ''font-size'' css)"
    by simp
  from spec_values_props[OF this]
  have v: "last (spec_values ''font-size'' css) \<noteq> []"
    "trim (last (spec_values ''font-size'' css)) = last (spec_values ''font-size'' css)"
    by simp_all
  have g: "js_get (parseStyleString css) ''font-size'' = Some (last (spec_values ''font-size'' css))"
    using False by (simp add: parse_values)
  have ne: "css \<noteq> []" using False spec_values_empty by auto
  from excel_size_get[OF g v ne] False show ?thesis by simp
qed

lemma decode_bound:
  assumes "parseFloat v = Fin n" and "\<bar>n\<bar> \<le> 1073741824"
  shows "\<exists>r. decode_font_size v = Some (Fin r)
             \<and> \<bar>r - (if has_pt_suffix v then n else n * (3 / 4))\<bar> \<le> 1 / 100"
proof (cases "has_pt_suffix v")
  case True
  from roundTrip_bound[OF assms(2)] obtain r where "roundTrip (Fin n) = Some (Fin r)"
    and "\<bar>r - n\<bar> \<le> 1 / 100" by blast
  with True assms(1) show ?thesis
    by (auto simp: decode_font_size_def pointsToPixels_eq pixelsToPoints_eq roundTrip_def
        pxToPt_opt_def split: option.splits)
next
  case False
  have "\<bar>n\<bar> \<le> 4294967296" using assms(2) by linarith
  from mul_PT[OF this] obtain b where b: "num_mul (Fin n) PT_PER_PX = Fin b"
    and be: "\<bar>b - n * (3 / 4)\<bar> \<le> 1 / 16384" and bb: "\<bar>b\<bar> \<le> 4294967296" by blast
  from toFixed_err[OF bb] obtain k r where r: "toFixedNumber (Fin b) = Some (Fin r)"
    and ke: "\<bar>of_int k - 100 * b\<bar> \<le> 1 / 2 + 1 / 16384"
    and re: "\<bar>r - of_int k / 100\<bar> \<le> 1 / 16384" by blast
  from be ke re have "\<bar>r - n * (3 / 4)\<bar> \<le> 1 / 100" by linarith
  moreover have "decode_font_size v = Some (Fin r)"
    using False assms(1) b r by (simp add: decode_font_size_def pixelsToPoints_eq pxToPt_def)
  ultimately show ?thesis using False by simp
qed

subsection \<open>Decodings of some values\<close>

lemma fl_small_int:
  "fl 10 = Fin 10" "fl 11 = Fin 11" "fl 12 = Fin 12" "fl 16 = Fin 16" "fl 24 = Fin 24"
  "fl 32 = Fin 32"
  using fl_int[of 10] fl_int[of 11] fl_int[of 12] fl_int[of 16] fl_int[of 24] fl_int[of 32]
  by simp_all

lemma fl_quarters: "fl (15 / 2) = Fin (15 / 2)" "fl (33 / 4) = Fin (33 / 4)"
  using fl_representable[of 15 "- 1"] fl_representable[of 33 "- 2"]
  by (simp_all add: pow2_def)

lemma ptToPx_values: "ptToPx (Fin 12) = Some (Fin 16)" "ptToPx (Fin 24) = Some (Fin 32)"
proof -
  from mul_PX[of 12] obtain a where a: "num_mul (Fin 12) PX_PER_POINT = Fin a"
    and ae: "\<bar>a - 12 * (4 / 3)\<bar> \<le> 1 / 8192" and ab: "\<bar>a\<bar> \<le> 4294967296" by auto
  from ae have "\<bar>a - 16\<bar> \<le> 1 / 8192" by simp
  then have "\<bar>100 * a - 1600\<bar> < 1 / 2 - 1 / 16384" by linarith
  then have "\<bar>100 * a - of_int 1600\<bar> < 1 / 2 - 1 / 16384" by simp
  from toFixed_exact[OF ab this] show "ptToPx (Fin 12) = Some (Fin 16)"
    by (simp add: ptToPx_def a fl_small_int)
  from mul_PX[of 24] obtain c where c: "num_mul (Fin 24) PX_PER_POINT = Fin c"
    and ce: "\<bar>c - 24 * (4 / 3)\<bar> \<le> 1 / 8192" and cb: "\<bar>c\<bar> \<le> 4294967296" by auto
  from ce have "\<bar>c - 32\<bar> \<le> 1 / 8192" by simp
  then have "\<bar>100 * c - 3200\<bar> < 1 / 2 - 1 / 16384" by linarith
  then have "\<bar>100 * c - of_int 3200\<bar> < 1 / 2 - 1 / 16384" by simp
  from toFixed_exact[OF cb this] show "ptToPx (Fin 24) = Some (Fin 32)"
    by (simp add: ptToPx_def c fl_small_int)
qed

lemma pxToPt_values:
  "pxToPt (Fin 16) = Some (Fin 12)" "pxToPt (Fin 32) = Some (Fin 24)"
  "pxToPt (Fin 10) = Some (Fin (15 / 2))" "pxToPt (Fin 11) = Some (Fin (33 / 4))"
proof -
  have "\<bar>100 * 12 - of_int 1200 :: rat\<bar> < 1 / 2 - 1 / 16384" by simp
  from toFixed_exact[OF _ this] show "pxToPt (Fin 16) = Some (Fin 12)"
    by (simp add: pxToPt_def PT_PER_PX_eq fl_small_int)
  have "\<bar>100 * 24 - of_int 2400 :: rat\<bar> < 1 / 2 - 1 / 16384" by simp
  from toFixed_exact[OF _ this] show "pxToPt (Fin 32) = Some (Fin 24)"
    by (simp add: pxToPt_def PT_PER_PX_eq fl_small_int)
  have "\<bar>100 * (15 / 2) - of_int 750 :: rat\<bar> < 1 / 2 - 1 / 16384" by simp
  from toFixed_exact[OF _ this] show "pxToPt (Fin 10) = Some (Fin (15 / 2))"
    by (simp add: pxToPt_def PT_PER_PX_eq fl_quarters)
  have "\<bar>100 * (33 / 4) - of_int 825 :: rat\<bar> < 1 / 2 - 1 / 16384" by simp
  from toFixed_exact[OF _ this] show "pxToPt (Fin 11) = Some (Fin (33 / 4))"
    by (simp add: pxToPt_def PT_PER_PX_eq fl_quarters)
qed

lemma parseFloat_values:
  "parseFloat ''24pt'' = Fin 24" "parseFloat ''12PT'' = Fin 12" "parseFloat ''16px'' = Fin 16"
  "parseFloat ''10'' = Fin 10" "parseFloat ''11px'' = Fin 11" "parseFloat ''large'' = NaN"
proof -
  have "scan_decimal ''24pt'' = Some (24, ''pt'')" "scan_decimal ''12PT'' = Some (12, ''PT'')"
    "scan_decimal ''16px'' = Some (16, ''px'')" "scan_decimal ''10'' = Some (10, [])"
    "scan_decimal ''11px'' = Some (11, ''px'')" "scan_decimal ''large'' = None"
    by code_simp+
  then show "parseFloat ''24pt'' = Fin 24" "parseFloat ''12PT'' = Fin 12"
    "parseFloat ''16px'' = Fin 16" "parseFloat ''10'' = Fin 10" "parseFloat ''11px'' = Fin 11"
    "parseFloat ''large'' = NaN"
    by (simp_all add: parseFloat_def is_ws_def startsWith_def fl_small_int)
qed

lemma decode_values:
  "decode_font_size ''24pt'' = Some (Fin 24)" "decode_font_size ''12PT'' = Some (Fin 12)"
  "decode_font_size ''16px'' = Some (Fin 12)" "decode_font_size ''10'' = Some (Fin (15 / 2))"
  "decode_font_size ''11px'' = Some (Fin (33 / 4))" "decode_font_size ''large'' = None"
  by (simp_all add: decode_font_size_def parseFloat_values has_pt_suffix_def
      pointsToPixels_eq pixelsToPoints_eq ptToPx_values pxToPt_values)
section \<open>Properties of the document writer\<close>

subsection \<open>The numeric literals are the texts that \<open>Number\<close> does not turn into \<open>NaN\<close>\<close>

lemma digit_not_mark: "is_digit c \<Longrightarrow> \<not> is_exponent_mark c"
  by (auto simp: is_digit_def is_exponent_mark_def Let_def)

lemma digit_not_dot: "is_digit c \<Longrightarrow> c \<noteq> CHR ''.''"
  by (auto simp: is_digit_def Let_def)

lemma digit_not_sign: "is_digit c \<Longrightarrow> \<not> is_sign c"
  by (auto simp: is_digit_def is_sign_def Let_def)

lemma scan_exponent_rest: "snd (scan_exponent r) = [] \<longleftrightarrow> is_exponent r"
proof (cases r)
  case Nil
  then show ?thesis by (simp add: scan_exponent_def is_exponent_def)
next
  case (Cons c r1)
  show ?thesis
  proof (cases "is_exponent_mark c")
    case False
    with Cons show ?thesis
      by (auto simp: scan_exponent_def is_exponent_def is_exponent_mark_def)
  next
    case True
    have u: "(if r1 \<noteq> [] \<and> (hd r1 = CHR ''-'' \<or> hd r1 = CHR ''+'') then tl r1 else r1) = unsigned r1"
      by (cases r1) (auto simp: unsigned_def is_sign_def)
    have "takeWhile is_digit (unsigned r1) \<noteq> [] \<and> dropWhile is_digit (unsigned r1) = []
          \<longleftrightarrow> unsigned r1 \<noteq> [] \<and> list_all is_digit (unsigned r1)"
      by (cases "unsigned r1") (auto simp: list_all_iff dropWhile_eq_Nil_conv)
    with True Cons u show ?thesis
      by (auto simp: scan_exponent_def is_exponent_def is_exponent_mark_def Let_def)
  qed
qed


lemma while_append:
  assumes "ex = [] \<or> \<not> P (hd ex)"
  shows "takeWhile P (m @ ex) = takeWhile P m \<and> dropWhile P (m @ ex) = dropWhile P m @ ex"
proof (induction m)
  case Nil
  from assms show ?case by (cases ex) auto
next
  case (Cons a m)
  then show ?case by simp
qed

lemma scan_mantissa_append:
  assumes "ex = [] \<or> is_exponent_mark (hd ex)"
  shows "scan_mantissa (m @ ex)
           = (case scan_mantissa m of (ip, fp, r2) \<Rightarrow> (ip, fp, r2 @ ex))"
proof -
  from assms have e: "ex = [] \<or> \<not> is_digit (hd ex)" using digit_not_mark by blast
  note w = while_append[where P = is_digit and ex = ex, OF e]
  define r1 where "r1 = dropWhile is_digit m"
  have nodot: "ex = [] \<or> hd ex \<noteq> CHR ''.''"
    using assms by (auto simp: is_exponent_mark_def)
  have dot: "(r1 @ ex \<noteq> [] \<and> hd (r1 @ ex) = CHR ''.'') \<longleftrightarrow> (r1 \<noteq> [] \<and> hd r1 = CHR ''.'')"
    using nodot by (cases r1) auto
  have d: "dropWhile is_digit (m @ ex) = r1 @ ex" and t: "takeWhile is_digit (m @ ex) = takeWhile is_digit m"
    using w[of m] by (simp_all add: r1_def)
  show ?thesis
  proof (cases "r1 \<noteq> [] \<and> hd r1 = CHR ''.''")
    case True
    then have tl: "tl (r1 @ ex) = tl r1 @ ex" by simp
    from True dot have c: "(r1 @ ex \<noteq> [] \<and> hd (r1 @ ex) = CHR ''.'') = True" by blast
    from True have c': "(r1 \<noteq> [] \<and> hd r1 = CHR ''.'') = True" by blast
    have "scan_mantissa (m @ ex)
            = (takeWhile is_digit m, takeWhile is_digit (tl r1), dropWhile is_digit (tl r1) @ ex)"
      unfolding scan_mantissa_def Let_def d t c tl using w[of "tl r1"] by simp
    moreover have "scan_mantissa m
            = (takeWhile is_digit m, takeWhile is_digit (tl r1), dropWhile is_digit (tl r1))"
      unfolding scan_mantissa_def Let_def r1_def[symmetric] c' by simp
    ultimately show ?thesis by simp
  next
    case False
    from False dot have c: "(r1 @ ex \<noteq> [] \<and> hd (r1 @ ex) = CHR ''.'') = False" by blast
    from False have c': "(r1 \<noteq> [] \<and> hd r1 = CHR ''.'') = False" by blast
    have "scan_mantissa (m @ ex) = (takeWhile is_digit m, [], r1 @ ex)"
      unfolding scan_mantissa_def Let_def d t c by simp
    moreover have "scan_mantissa m = (takeWhile is_digit m, [], r1)"
      unfolding scan_mantissa_def Let_def r1_def[symmetric] c' by simp
    ultimately show ?thesis by simp
  qed
qed

lemma scan_mantissa_rest:
  assumes "scan_mantissa m = (ip, fp, r2)"
  shows "set r2 \<subseteq> set m"
proof -
  have 1: "set (dropWhile is_digit m) \<subseteq> set m" by (auto dest: set_dropWhileD)
  have tl_sub: "set (tl xs) \<subseteq> set xs" for xs :: string by (cases xs) auto
  have "set (dropWhile is_digit (tl (dropWhile is_digit m))) \<subseteq> set (tl (dropWhile is_digit m))"
    by (auto dest: set_dropWhileD)
  also have "\<dots> \<subseteq> set (dropWhile is_digit m)"
    by (rule tl_sub)
  finally have 2: "set (dropWhile is_digit (tl (dropWhile is_digit m))) \<subseteq> set m"
    using 1 by blast
  from assms 1 2 show ?thesis
    by (auto simp: scan_mantissa_def Let_def split: if_splits)
qed

lemma all_digits_mantissa:
  assumes "list_all is_digit t"
  shows "filter (\<lambda>c. c = CHR ''.'') t = []" and "list_ex is_digit t \<longleftrightarrow> t \<noteq> []"
    and "list_all (\<lambda>c. is_digit c \<or> c = CHR ''.'') t"
proof -
  from assms show "filter (\<lambda>c. c = CHR ''.'') t = []"
    by (auto simp: list_all_iff filter_empty_conv dest: digit_not_dot)
  from assms show "list_ex is_digit t \<longleftrightarrow> t \<noteq> []"
    by (cases t) (auto simp: list_all_iff list_ex_iff)
  from assms show "list_all (\<lambda>c. is_digit c \<or> c = CHR ''.'') t"
    by (auto simp: list_all_iff)
qed

lemma no_dot_digits:
  assumes "list_all (\<lambda>c. is_digit c \<or> c = CHR ''.'') t" and "filter (\<lambda>c. c = CHR ''.'') t = []"
  shows "list_all is_digit t"
  using assms by (auto simp: list_all_iff filter_empty_conv)

lemma mantissa_scan:
  "is_mantissa m \<longleftrightarrow>
     (case scan_mantissa m of (ip, fp, r2) \<Rightarrow> (ip \<noteq> [] \<or> fp \<noteq> []) \<and> r2 = [])"
proof -
  define ip where "ip = takeWhile is_digit m"
  define r1 where "r1 = dropWhile is_digit m"
  have m: "m = ip @ r1" by (simp add: ip_def r1_def)
  have ipd: "list_all is_digit ip" by (auto simp: ip_def list_all_iff dest: set_takeWhileD)
  note ipm = all_digits_mantissa[OF ipd]
  show ?thesis
  proof (cases r1)
    case Nil
    then have "scan_mantissa m = (ip, [], [])"
      by (simp add: scan_mantissa_def Let_def ip_def r1_def)
    moreover have "is_mantissa m \<longleftrightarrow> ip \<noteq> []"
      using Nil m ipm by (simp add: is_mantissa_def)
    ultimately show ?thesis by simp
  next
    case (Cons d t)
    have nd: "\<not> is_digit d"
      using Cons hd_dropWhile[of is_digit m] by (simp add: r1_def)
    show ?thesis
    proof (cases "d = CHR ''.''")
      case False
      with Cons have "scan_mantissa m = (ip, [], r1)"
        by (simp add: scan_mantissa_def Let_def ip_def r1_def)
      moreover have "\<not> is_mantissa m"
        using Cons m nd False by (simp add: is_mantissa_def)
      ultimately show ?thesis using Cons by simp
    next
      case True
      with Cons have sm: "scan_mantissa m = (ip, takeWhile is_digit t, dropWhile is_digit t)"
        by (simp add: scan_mantissa_def Let_def ip_def r1_def)
      have rhs: "(ip \<noteq> [] \<or> takeWhile is_digit t \<noteq> []) \<and> dropWhile is_digit t = []
                 \<longleftrightarrow> (ip \<noteq> [] \<or> t \<noteq> []) \<and> list_all is_digit t"
      proof (cases "list_all is_digit t")
        case True
        then have tw: "takeWhile is_digit t = t" and dw: "dropWhile is_digit t = []"
          by (induction t) auto
        show ?thesis unfolding tw dw using True by simp
      next
        case False
        then have dw: "dropWhile is_digit t \<noteq> []"
          by (simp add: list_all_iff dropWhile_eq_Nil_conv)
        from False dw show ?thesis by blast
      qed
      have lhs: "is_mantissa m \<longleftrightarrow> (ip \<noteq> [] \<or> t \<noteq> []) \<and> list_all is_digit t"
      proof (cases "list_all is_digit t")
        case dt: True
        note tm = all_digits_mantissa[OF dt]
        show ?thesis
          using dt tm ipm ipd True Cons m nd
          by (simp add: is_mantissa_def)
      next
        case False
        have "\<not> is_mantissa m"
        proof
          assume im: "is_mantissa m"
          then have a: "list_all (\<lambda>c. is_digit c \<or> c = CHR ''.'') t"
            and c: "length (filter (\<lambda>c. c = CHR ''.'') m) \<le> 1"
            using m Cons by (simp_all add: is_mantissa_def)
          from c m Cons True ipm(1) have "filter (\<lambda>c. c = CHR ''.'') t = []" by simp
          from no_dot_digits[OF a this] False show False by contradiction
        qed
        with False show ?thesis by simp
      qed
      from sm rhs lhs show ?thesis by simp
    qed
  qed
qed

lemma scan_exponent_stuck:
  assumes "r \<noteq> []" and "\<not> is_exponent_mark (hd r)"
  shows "snd (scan_exponent (r @ ex)) \<noteq> []"
  using assms by (cases r) (auto simp: scan_exponent_def is_exponent_mark_def)

lemma scan_decimal_literal:
  "(\<exists>v. scan_decimal u = Some (v, [])) \<longleftrightarrow> is_decimal_literal u"
proof -
  define m where "m = takeWhile (\<lambda>c. \<not> is_exponent_mark c) u"
  define ex where "ex = dropWhile (\<lambda>c. \<not> is_exponent_mark c) u"
  have u: "u = m @ ex" by (simp add: m_def ex_def)
  have exh: "ex = [] \<or> is_exponent_mark (hd ex)"
    using hd_dropWhile[of "\<lambda>c. \<not> is_exponent_mark c" u] by (auto simp: ex_def)
  have mm: "\<forall>c \<in> set m. \<not> is_exponent_mark c"
    by (auto simp: m_def dest: set_takeWhileD)
  obtain ip fp r2 where sm: "scan_mantissa m = (ip, fp, r2)" by (cases "scan_mantissa m") auto
  from scan_mantissa_append[OF exh, of m] sm
  have su: "scan_mantissa u = (ip, fp, r2 @ ex)" by (simp add: u)
  have rest: "snd (scan_exponent (r2 @ ex)) = [] \<longleftrightarrow> r2 = [] \<and> is_exponent ex"
  proof (cases "r2 = []")
    case True
    then show ?thesis by (simp add: scan_exponent_rest)
  next
    case False
    from scan_mantissa_rest[OF sm] mm False have "\<not> is_exponent_mark (hd r2)"
      by (metis hd_in_set subsetD)
    from scan_exponent_stuck[OF False this] False show ?thesis by simp
  qed
  have "(\<exists>v. scan_decimal u = Some (v, []))
          \<longleftrightarrow> (ip \<noteq> [] \<or> fp \<noteq> []) \<and> snd (scan_exponent (r2 @ ex)) = []"
    by (cases "scan_exponent (r2 @ ex)") (auto simp: scan_decimal_def su)
  also have "\<dots> \<longleftrightarrow> ((ip \<noteq> [] \<or> fp \<noteq> []) \<and> r2 = []) \<and> is_exponent ex"
    using rest by blast
  also have "\<dots> \<longleftrightarrow> is_mantissa m \<and> is_exponent ex"
    using mantissa_scan[of m] sm by simp
  finally show ?thesis by (simp add: is_decimal_literal_def m_def ex_def)
qed


lemma fl_not_NaN: "fl x \<noteq> NaN"
  by (simp add: fl_def Let_def)

lemma radix_digit_hex: "radix_digit c < 16 \<longleftrightarrow> is_hex_digit c"
proof -
  have i: "(of_char c :: int) = int (of_char c)" by (rule of_nat_of_char[symmetric])
  show ?thesis
    unfolding radix_digit_def is_hex_digit_def Let_def i by auto
qed

lemma radix_digit_oct: "radix_digit c < 8 \<longleftrightarrow> is_octal_digit c"
proof -
  have i: "(of_char c :: int) = int (of_char c)" by (rule of_nat_of_char[symmetric])
  show ?thesis
    unfolding radix_digit_def is_octal_digit_def Let_def i by auto
qed

lemma radix_digit_bin: "radix_digit c < 2 \<longleftrightarrow> is_binary_digit c"
proof -
  have i: "(of_char c :: int) = int (of_char c)" by (rule of_nat_of_char[symmetric])
  have "c = CHR ''0'' \<longleftrightarrow> (of_char c :: nat) = 48" "c = CHR ''1'' \<longleftrightarrow> (of_char c :: nat) = 49"
    using of_char_eq_iff[of c "CHR ''0''", where ?'a = nat]
      of_char_eq_iff[of c "CHR ''1''", where ?'a = nat] by simp_all
  then show ?thesis
    unfolding radix_digit_def is_binary_digit_def Let_def i by auto
qed

lemma radix_literal_NaN:
  "radix_literal radix ds \<noteq> NaN \<longleftrightarrow> ds \<noteq> [] \<and> list_all (\<lambda>c. radix_digit c < radix) ds"
  by (simp add: radix_literal_def fl_not_NaN)

lemma not_literal_empty: "\<not> is_numeric_literal []"
  by (simp add: is_numeric_literal_def is_radix_literal_def unsigned_def is_decimal_literal_def
      is_mantissa_def)

lemma prefixed_not_decimal:
  assumes "t = CHR ''0'' # x # ds" and "\<not> is_digit x" and "x \<noteq> CHR ''.''"
    and "\<not> is_exponent_mark x"
  shows "unsigned t \<noteq> ''Infinity'' \<and> \<not> is_decimal_literal (unsigned t)"
proof -
  have u: "unsigned (CHR ''0'' # x # ds) = CHR ''0'' # x # ds"
    by (simp add: unsigned_def is_sign_def)
  have tw: "takeWhile (\<lambda>c. \<not> is_exponent_mark c) (CHR ''0'' # x # ds)
              = CHR ''0'' # x # takeWhile (\<lambda>c. \<not> is_exponent_mark c) ds"
    using assms(4) by (simp add: is_exponent_mark_def)
  have "\<not> is_mantissa (CHR ''0'' # x # takeWhile (\<lambda>c. \<not> is_exponent_mark c) ds)"
    using assms(2,3) by (simp add: is_mantissa_def)
  then show ?thesis
    unfolding assms(1) u is_decimal_literal_def tw by simp
qed

lemma StringToNumber_NaN:
  "StringToNumber s \<noteq> NaN \<longleftrightarrow> trim s = [] \<or> is_numeric_literal (trim s)"
proof (cases "trim s = []")
  case True
  then show ?thesis by (simp add: StringToNumber_def)
next
  case False
  define t where "t = trim s"
  let ?p16 = "startsWith t ''0x'' \<or> startsWith t ''0X''"
  let ?p8 = "startsWith t ''0o'' \<or> startsWith t ''0O''"
  let ?p2 = "startsWith t ''0b'' \<or> startsWith t ''0B''"
  have letters: "\<not> is_digit x \<and> x \<noteq> CHR ''.'' \<and> \<not> is_exponent_mark x"
    if "x = CHR ''x'' \<or> x = CHR ''X'' \<or> x = CHR ''o'' \<or> x = CHR ''O'' \<or> x = CHR ''b'' \<or> x = CHR ''B''"
    for x
    using that by (auto simp: is_digit_def is_exponent_mark_def)
  consider (hex) ?p16 | (oct) "\<not> ?p16" ?p8 | (bin) "\<not> ?p16" "\<not> ?p8" ?p2
    | (dec) "\<not> ?p16" "\<not> ?p8" "\<not> ?p2" by blast
  then have "StringToNumber s \<noteq> NaN \<longleftrightarrow> is_numeric_literal t"
  proof cases
    case hex
    then obtain x ds where t: "t = CHR ''0'' # x # ds" and x: "x = CHR ''x'' \<or> x = CHR ''X''"
      by (cases t; cases "tl t") (auto simp: startsWith_def)
    from letters[of x] x prefixed_not_decimal[OF t]
    have nd: "unsigned t \<noteq> ''Infinity'' \<and> \<not> is_decimal_literal (unsigned t)" by blast
    have "StringToNumber s = radix_literal 16 ds"
      using hex False t by (simp add: StringToNumber_def t_def[symmetric] Let_def)
    moreover have "is_radix_literal t \<longleftrightarrow> ds \<noteq> [] \<and> list_all is_hex_digit ds"
      using x by (auto simp: is_radix_literal_def t)
    ultimately show ?thesis
      using nd by (simp add: radix_literal_NaN radix_digit_hex is_numeric_literal_def)
  next
    case oct
    then obtain x ds where t: "t = CHR ''0'' # x # ds" and x: "x = CHR ''o'' \<or> x = CHR ''O''"
      by (cases t; cases "tl t") (auto simp: startsWith_def)
    from letters[of x] x prefixed_not_decimal[OF t]
    have nd: "unsigned t \<noteq> ''Infinity'' \<and> \<not> is_decimal_literal (unsigned t)" by blast
    have "StringToNumber s = radix_literal 8 ds"
      using oct False t by (simp add: StringToNumber_def t_def[symmetric] Let_def)
    moreover have "is_radix_literal t \<longleftrightarrow> ds \<noteq> [] \<and> list_all is_octal_digit ds"
      using x by (auto simp: is_radix_literal_def t)
    ultimately show ?thesis
      using nd by (simp add: radix_literal_NaN radix_digit_oct is_numeric_literal_def)
  next
    case bin
    then obtain x ds where t: "t = CHR ''0'' # x # ds" and x: "x = CHR ''b'' \<or> x = CHR ''B''"
      by (cases t; cases "tl t") (auto simp: startsWith_def)
    from letters[of x] x prefixed_not_decimal[OF t]
    have nd: "unsigned t \<noteq> ''Infinity'' \<and> \<not> is_decimal_literal (unsigned t)" by blast
    have "StringToNumber s = radix_literal 2 ds"
      using bin False t by (simp add: StringToNumber_def t_def[symmetric] Let_def)
    moreover have "is_radix_literal t \<longleftrightarrow> ds \<noteq> [] \<and> list_all is_binary_digit ds"
      using x by (auto simp: is_radix_literal_def t)
    ultimately show ?thesis
      using nd by (simp add: radix_literal_NaN radix_digit_bin is_numeric_literal_def)
  next
    case dec
    have nr: "\<not> is_radix_literal t"
    proof
      assume "is_radix_literal t"
      then obtain x ds where "t = CHR ''0'' # x # ds"
        and "x = CHR ''x'' \<or> x = CHR ''X'' \<or> x = CHR ''o'' \<or> x = CHR ''O'' \<or> x = CHR ''b'' \<or> x = CHR ''B''"
        by (cases t; cases "tl t") (auto simp: is_radix_literal_def)
      with dec show False by (auto simp: startsWith_def)
    qed
    from False have tne: "t \<noteq> []" by (simp add: t_def)
    have u: "(if hd t = CHR ''-'' \<or> hd t = CHR ''+'' then tl t else t) = unsigned t"
      using tne by (cases t) (auto simp: unsigned_def is_sign_def)
    have "StringToNumber s \<noteq> NaN
            \<longleftrightarrow> unsigned t = ''Infinity'' \<or> (\<exists>v. scan_decimal (unsigned t) = Some (v, []))"
      using dec tne u
      by (auto simp: StringToNumber_def t_def[symmetric] Let_def fl_not_NaN
          split: option.splits)
    with nr show ?thesis
      by (simp add: is_numeric_literal_def scan_decimal_literal)
  qed
  with False show ?thesis by (simp add: t_def)
qed

subsection \<open>The cells that are written\<close>

lemma write_cell_mem:
  assumes "r < length data" and "c < length (data ! r)"
  shows "write_cell num_str encode_cell styles r c (data ! r ! c)
           \<in> set (dataToExcelBuffer num_str encode_cell data styles)"
proof -
  have 1: "(r, data ! r) \<in> set (enumerate 0 data)"
    using assms(1) by (simp add: in_set_enumerate_eq)
  have 2: "(c, data ! r ! c) \<in> set (enumerate 0 (data ! r))"
    using assms(2) by (simp add: in_set_enumerate_eq)
  show ?thesis
    unfolding dataToExcelBuffer_def set_concat
    using 1 2 by force
qed

lemma written_cells_only:
  assumes "cell \<in> set (dataToExcelBuffer num_str encode_cell data styles)"
  shows "\<exists>r c. r < length data \<and> c < length (data ! r)
           \<and> cell = write_cell num_str encode_cell styles r c (data ! r ! c)"
  using assms
  by (auto simp: dataToExcelBuffer_def in_set_enumerate_eq) blast



lemma written_value_stored:
  assumes "\<not> startsWith (cellStr_of num_str v) ''=''"
  shows "written_value_of num_str v = stored_value v"
proof (cases v)
  case (GStr s)
  have "StringToNumber s \<noteq> NaN \<and> trim s \<noteq> [] \<longleftrightarrow> is_numeric_literal (spec_strip s)"
    using StringToNumber_NaN[of s] not_literal_empty by (auto simp: spec_strip_trim)
  with assms GStr show ?thesis
    by (simp add: written_value_of_def stored_value_def cellStr_of_def String_of_def
        ToNumber_def Let_def)
next
  case (GBool b)
  have "trim ''true'' \<noteq> []" "trim ''false'' \<noteq> []" by (simp_all add: trim_def is_ws_def)
  with assms GBool show ?thesis
    by (simp add: written_value_of_def stored_value_def cellStr_of_def String_of_def
        ToNumber_def Let_def)
qed (use assms in \<open>simp_all add: written_value_of_def stored_value_def cellStr_of_def
       String_of_def ToNumber_def Let_def trim_def\<close>)

subsection \<open>Some texts and their numbers\<close>

lemma StringToNumber_values:
  "StringToNumber ''42'' = Fin 42" "StringToNumber ''42abc'' = NaN"
  "StringToNumber ''Infinity'' = PosInf"
  "StringToNumber (CHR 0xA0 # ''42 '') = Fin 42" "StringToNumber ''0x1F'' = Fin 31"
proof -
  have sd: "scan_decimal ''42'' = Some (42, [])" "scan_decimal ''42abc'' = Some (42, ''abc'')"
    by code_simp+
  have t: "trim ''42'' = ''42''" "trim ''42abc'' = ''42abc''" "trim ''Infinity'' = ''Infinity''"
    "trim (CHR 0xA0 # ''42 '') = ''42''" "trim ''0x1F'' = ''0x1F''"
    by (simp_all add: trim_def is_ws_def)
  show "StringToNumber ''42'' = Fin 42"
    using sd fl_int[of 42] unfolding StringToNumber_def t by (simp add: startsWith_def Let_def)
  show "StringToNumber ''42abc'' = NaN"
    using sd unfolding StringToNumber_def t by (simp add: startsWith_def Let_def)
  show "StringToNumber ''Infinity'' = PosInf"
    unfolding StringToNumber_def t by (simp add: startsWith_def Let_def)
  show "StringToNumber (CHR 0xA0 # ''42 '') = Fin 42"
    using sd fl_int[of 42] unfolding StringToNumber_def t by (simp add: startsWith_def Let_def)
  have "foldl (\<lambda>acc c. 16 * acc + radix_digit c) 0 ''1F'' = 31"
    and "list_all (\<lambda>c. radix_digit c < 16) ''1F''" by code_simp+
  then show "StringToNumber ''0x1F'' = Fin 31"
    using fl_int[of 31] unfolding StringToNumber_def t
    by (simp add: startsWith_def Let_def radix_literal_def)
qed

section \<open>Properties of the document reader\<close>

lemma grid_entry_not_nullish: "\<not> is_nullish (grid_entry d)"
  by (cases d) (simp_all add: grid_entry_def)

lemma not_nullish_iff: "\<not> is_nullish v \<longleftrightarrow> v \<noteq> JUndefined \<and> v \<noteq> JNull"
  by (cases v) simp_all

lemma read_cell_entry:
  assumes "read_cell num_str cell = Inr (entry, css)"
  shows "\<exists>d. display_value num_str cell = Inr d \<and> entry = grid_entry d"
  using assms by (auto simp: read_cell_def split: sum.splits)

lemma read_cols_props:
  assumes "read_cols num_str encode_cell ws r cs styles = Inr (entries, styles')"
  shows "length entries = length cs
         \<and> (\<forall>i < length cs. \<exists>d. display_value num_str (cell_at ws r (cs ! i)) = Inr d
                                  \<and> entries ! i = grid_entry d)"
  using assms
proof (induction cs arbitrary: styles entries styles')
  case Nil
  then show ?case by simp
next
  case (Cons c cs)
  from Cons.prems obtain entry css where rc: "read_cell num_str (cell_at ws r c) = Inr (entry, css)"
    by (auto split: sum.splits)
  let ?st = "if css \<noteq> [] then js_set styles (encode_cell r c) css else styles"
  from Cons.prems rc obtain rest where rest: "read_cols num_str encode_cell ws r cs ?st = Inr (rest, styles')"
    and e: "entries = entry # rest"
    by (auto split: sum.splits)
  from Cons.IH[OF rest] have len: "length rest = length cs"
    and ih: "\<forall>i < length cs. \<exists>d. display_value num_str (cell_at ws r (cs ! i)) = Inr d
                                  \<and> rest ! i = grid_entry d" by simp_all
  from read_cell_entry[OF rc] obtain d where d: "display_value num_str (cell_at ws r c) = Inr d"
    "entry = grid_entry d" by blast
  have "\<exists>d. display_value num_str (cell_at ws r ((c # cs) ! i)) = Inr d
              \<and> entries ! i = grid_entry d" if "i < length (c # cs)" for i
  proof (cases i)
    case 0
    with d e show ?thesis by simp
  next
    case (Suc j)
    with that ih e show ?thesis by simp
  qed
  with len e show ?case by simp
qed

lemma read_rows_props:
  assumes "read_rows num_str encode_cell ws rs cols styles = Inr (rows, styles')"
  shows "length rows = length rs
         \<and> (\<forall>i < length rs. length (rows ! i) = length cols
               \<and> (\<forall>j < length cols. \<exists>d. display_value num_str (cell_at ws (rs ! i) (cols ! j)) = Inr d
                                  \<and> rows ! i ! j = grid_entry d))"
  using assms
proof (induction rs arbitrary: styles rows styles')
  case Nil
  then show ?case by simp
next
  case (Cons r rs)
  from Cons.prems obtain row st1 where rc: "read_cols num_str encode_cell ws r cols styles = Inr (row, st1)"
    by (auto split: sum.splits)
  from Cons.prems rc obtain rest where rest: "read_rows num_str encode_cell ws rs cols st1 = Inr (rest, styles')"
    and e: "rows = row # rest"
    by (auto split: sum.splits)
  note ih = Cons.IH[OF rest]
  note rp = read_cols_props[OF rc]
  have "length (rows ! i) = length cols
               \<and> (\<forall>j < length cols. \<exists>d. display_value num_str (cell_at ws ((r # rs) ! i) (cols ! j)) = Inr d
                                  \<and> rows ! i ! j = grid_entry d)" if "i < length (r # rs)" for i
  proof (cases i)
    case 0
    with rp e show ?thesis by simp
  next
    case (Suc k)
    with that ih e show ?thesis by simp
  qed
  with ih e show ?case by simp
qed

lemma foldl_max_ge:
  "a \<le> foldl (\<lambda>maxCol row. max maxCol (length row)) a ws
   \<and> (\<forall>row \<in> set ws. length row \<le> foldl (\<lambda>maxCol row. max maxCol (length row)) a ws)"
proof (induction ws arbitrary: a)
  case Nil
  then show ?case by simp
next
  case (Cons row ws)
  from Cons.IH[of "max a (length row)"] show ?case by auto
qed

lemma max_cell_count_ge: "r < length ws \<Longrightarrow> length (ws ! r) \<le> max_cell_count ws"
  using foldl_max_ge[of 0 ws] by (simp add: max_cell_count_def)

lemma read_cols_total:
  assumes "\<forall>c \<in> set cs. \<exists>x. read_cell num_str (cell_at ws r c) = Inr x"
  shows "\<exists>y. read_cols num_str encode_cell ws r cs styles = Inr y"
  using assms
proof (induction cs arbitrary: styles)
  case Nil
  then show ?case by simp
next
  case (Cons c cs)
  from Cons.prems obtain entry css where rc: "read_cell num_str (cell_at ws r c) = Inr (entry, css)"
    by fastforce
  from Cons.prems have "\<forall>c \<in> set cs. \<exists>x. read_cell num_str (cell_at ws r c) = Inr x" by simp
  from Cons.IH[OF this, of "if css \<noteq> [] then js_set styles (encode_cell r c) css else styles"]
  show ?case by (auto simp: rc)
qed

lemma read_rows_total:
  assumes "\<forall>r \<in> set rs. \<forall>c \<in> set cols. \<exists>x. read_cell num_str (cell_at ws r c) = Inr x"
  shows "\<exists>y. read_rows num_str encode_cell ws rs cols styles = Inr y"
  using assms
proof (induction rs arbitrary: styles)
  case Nil
  then show ?case by simp
next
  case (Cons r rs)
  from Cons.prems have "\<forall>c \<in> set cols. \<exists>x. read_cell num_str (cell_at ws r c) = Inr x" by simp
  from read_cols_total[OF this, of encode_cell styles]
  obtain row st1 where rc: "read_cols num_str encode_cell ws r cols styles = Inr (row, st1)"
    by fastforce
  from Cons.prems have "\<forall>r \<in> set rs. \<forall>c \<in> set cols. \<exists>x. read_cell num_str (cell_at ws r c) = Inr x"
    by simp
  from Cons.IH[OF this, of st1] show ?case by (auto simp: rc)
qed

lemma read_empty_cell: "read_cell num_str empty_cell = Inr (JStr [], [])"
  by (simp add: read_cell_def display_value_def empty_cell_def or_else_def formula_of_def
      excelCellStyleToCss_def grid_entry_def)

lemma max_cell_count_Max: "max_cell_count ws = max_cells ws"
proof -
  have "foldl (\<lambda>maxCol row. max maxCol (length row)) a ws = Max (set (a # map length ws))" for a
  proof (induction ws arbitrary: a)
    case Nil
    then show ?case by simp
  next
    case (Cons row ws)
    have "Max (set (max a (length row) # map length ws))
            = Max (set (a # map length (row # ws)))"
    proof (cases "ws = []")
      case True
      then show ?thesis by (simp add: max.commute)
    next
      case False
      then have ne: "set (map length ws) \<noteq> {}" by simp
      have fin: "finite (set (map length ws))" by simp
      have "Max (insert (max a (length row)) (set (map length ws)))
              = max (max a (length row)) (Max (set (map length ws)))"
        using fin ne by (rule Max_insert)
      moreover have "Max (insert a (insert (length row) (set (map length ws))))
              = max a (max (length row) (Max (set (map length ws))))"
        using fin ne by (simp add: Max_insert)
      ultimately show ?thesis by (simp add: max.assoc)
    qed
    with Cons.IH[of "max a (length row)"] show ?case by simp
  qed
  then show ?thesis by (simp add: max_cell_count_def max_cells_def)
qed

lemma buildFontFamily_total:
  assumes "normalizeFontName name \<notin> set Object_prototype_keys"
  shows "\<exists>family. buildFontFamily name = Inr family"
proof (cases "normalizeFontName name = []")
  case True
  have "map_of FONT_FALLBACKS ''Segoe UI'' \<noteq> None" by (simp add: FONT_FALLBACKS_def)
  with True show ?thesis
    by (auto simp: buildFontFamily_def buildFontFamily_parts_def Let_def split: option.splits)
next
  case False
  with assms show ?thesis
    by (auto simp: buildFontFamily_def buildFontFamily_parts_def Let_def split: option.splits)
qed

lemma read_cell_total:
  assumes "readable_cell cell"
  shows "\<exists>x. read_cell num_str cell = Inr x"
proof -
  from assms have rt: "\<not> list_ex is_nullish (array_items (get_prop (c_value cell) ''richText''))"
    by (simp add: readable_cell_def)
  then have "\<exists>s. richText_text num_str (array_items (get_prop (c_value cell) ''richText'')) = Inr s"
    by (simp add: richText_text_def)
  then have d: "\<exists>d. display_value num_str cell = Inr d"
    by (auto simp: display_value_def Let_def)
  have f: "\<exists>parts. font_css num_str f = Inr parts" if "c_font cell = Some f" for f
  proof (cases "cf_name f")
    case None
    then show ?thesis by (simp add: font_css_def Let_def truthy_str_def)
  next
    case (Some name)
    with assms that have "normalizeFontName name \<notin> set Object_prototype_keys"
      by (simp add: readable_cell_def)
    from buildFontFamily_total[OF this] obtain family where "buildFontFamily name = Inr family"
      by blast
    with Some show ?thesis by (simp add: font_css_def Let_def)
  qed
  have "\<exists>css. excelCellStyleToCss num_str cell = Inr css"
  proof (cases "c_font cell")
    case None
    then show ?thesis by (simp add: excelCellStyleToCss_def)
  next
    case (Some f)
    from f[OF this] obtain parts where "font_css num_str f = Inr parts" by blast
    with Some show ?thesis by (simp add: excelCellStyleToCss_def)
  qed
  with d show ?thesis by (auto simp: read_cell_def)
qed

section \<open>Properties of the colour codec\<close>

lemma hex_not_ws: "is_hex_digit c \<Longrightarrow> \<not> is_ws c"
  by (auto simp: is_hex_digit_def is_ws_def Let_def)

lemma hex_not_hash: "is_hex_digit c \<Longrightarrow> c \<noteq> CHR ''#''"
  by (auto simp: is_hex_digit_def Let_def)

lemma length_doubled: "length (concat (map (\<lambda>ch. [ch, ch]) ds)) = 2 * length ds"
  by (induction ds) auto

lemma toUpperCase_hex: "is_hex_digit c \<Longrightarrow> is_hex_digit (toUpperCase_char c)"
  by (auto simp: is_hex_digit_def toUpperCase_char_def Let_def)

lemma toUpperCase_hex_map:
  "list_all is_hex_digit s \<Longrightarrow> toUpperCase s = map toUpperCase_char s"
proof (induction s)
  case Nil
  then show ?case by (simp add: toUpperCase_def)
next
  case (Cons c s)
  from Cons.prems have "c \<noteq> CHR 0xDF" by (auto simp: is_hex_digit_def Let_def)
  with Cons show ?case by (simp add: toUpperCase_def)
qed

lemma doubled_hex: "list_all is_hex_digit ds \<Longrightarrow> list_all is_hex_digit (double_digits ds)"
  by (induction ds) (auto simp: double_digits_def)

lemma toLowerCase_toUpperCase_char:
  "toLowerCase_char (toUpperCase_char c) = toLowerCase_char c"
proof -
  have "(of_char c :: nat) < 256" by simp
  then show ?thesis
    by (auto simp: toLowerCase_char_def toUpperCase_char_def Let_def)
qed

text \<open>
  Claim C2: for every valid 3-digit or 6-digit hex colour \<open>h\<close> (the digits \<open>ds\<close>, with or
  without a leading \<open>#\<close>, in any letter case), \<open>xlsxColorToCSS (cssColorToXlsx h)\<close> is the
  6-digit canonical form of \<open>h\<close>: \<open>#\<close> followed by six hex digits, a 3-digit input
  expanded by doubling each digit, equal to the digits of \<open>h\<close> up to letter case.
\<close>

theorem color_roundtrip:
  assumes "list_all is_hex_digit ds" and "length ds = 3 \<or> length ds = 6"
    and "h = ds \<or> h = CHR ''#'' # ds"
  shows "xlsxColorToCSS (cssColorToXlsx h) = Some (canonical_hex ds)
         \<and> length (canonical_hex ds) = 7
         \<and> hd (canonical_hex ds) = CHR ''#''
         \<and> list_all is_hex_digit (tl (canonical_hex ds))
         \<and> toLowerCase (tl (canonical_hex ds))
             = toLowerCase (if length ds = 3 then double_digits ds else ds)"
proof -
  from assms(2) obtain d ds' where ds: "ds = d # ds'" by (cases ds) auto
  have nws: "\<not> is_ws (hd ds)" "\<not> is_ws (last ds)" "hd ds \<noteq> CHR ''#''"
    using assms(1) ds hex_not_ws hex_not_hash by (auto simp: list_all_iff)
  have "\<not> is_ws (CHR ''#'')" by (simp add: is_ws_def)
  then have t: "trim h = h"
    using assms(3) nws ds by (intro trim_id) auto
  have n1: "(if startsWith (trim h) ''#'' then slice_from 1 (trim h) else trim h) = ds"
    using assms(3) nws ds by (auto simp: t startsWith_def slice_from_def)
  have hne: "h \<noteq> []" using assms(3) ds by auto
  have dd: "list_all is_hex_digit (double_digits ds)"
    using assms(1) by (rule doubled_hex)
  have up: "toUpperCase ds = map toUpperCase_char ds"
    "toUpperCase (double_digits ds) = map toUpperCase_char (double_digits ds)"
    using assms(1) dd by (simp_all add: toUpperCase_hex_map)
  have 1: "xlsxColorToCSS (cssColorToXlsx h) = Some (canonical_hex ds)"
    using assms(2) hne up
    by (auto simp: cssColorToXlsx_def Let_def n1 length_doubled xlsxColorToCSS_def truthy_str_def
        slice_from_def slice_last_def canonical_hex_def double_digits_def)
  have 2: "length (canonical_hex ds) = 7"
    using assms(2) up by (auto simp: canonical_hex_def double_digits_def length_doubled)
  have 3: "list_all is_hex_digit (tl (canonical_hex ds))"
    using assms(1) dd up
    by (auto simp: canonical_hex_def list_all_iff toUpperCase_hex)
  have 4: "toLowerCase (tl (canonical_hex ds))
             = toLowerCase (if length ds = 3 then double_digits ds else ds)"
    using up by (simp add: canonical_hex_def toLowerCase_def toLowerCase_toUpperCase_char)
  show ?thesis
    using 1 2 3 4 by (simp add: canonical_hex_def)
qed

theorem color_roundtrip_witness:
  "list_all is_hex_digit ''a1F'' \<and> length ''a1F'' = 3
   \<and> xlsxColorToCSS (cssColorToXlsx ''#a1F'') = Some ''#AA11FF''"
proof -
  have 1: "list_all is_hex_digit ''a1F''" by code_simp
  have 2: "canonical_hex ''a1F'' = ''#AA11FF''" by code_simp
  show ?thesis
    using 1 2 color_roundtrip [of "''a1F''" "''#a1F''"] by simp
qed

text \<open>
  Claim C9, as stated, fails: \<open>parseStyleString\<close> splits a segment on every colon and
  keeps the first two fields, so a value that contains a colon is cut at that colon.
\<close>

theorem parseStyleString_colon_counterexample:
  "js_get (parseStyleString ''background-image: url(http://x)'') ''background-image''
     = Some ''url(http''
   \<and> js_get (parseStyleString ''background-image: url(http://x)'') ''background-image''
     \<noteq> Some ''url(http://x)''"
  by code_simp

text \<open>
  Claim C9, amended: for every input string, \<open>parseStyleString\<close> cuts the string at its
  semicolons, strips the whitespace around each piece and drops the empty pieces; in each
  segment the property is the stripped text before the first colon and the value is the
  stripped text between the first colon and the second one (whatever follows a second colon
  is discarded); a segment without a colon, without a property or without a value is
  dropped; a later segment overwrites an earlier one of the same property. This is
  \<open>spec_parse\<close>, and the result of \<open>parseStyleString\<close> holds, under every property name
  \<open>k\<close> other than \<open>__proto__\<close>, what \<open>spec_parse\<close> holds; its keys are distinct.
\<close>

theorem parseStyleString_refines:
  assumes "k \<noteq> ''__proto__''"
  shows "map_of (parseStyleString s) k = spec_parse s k
         \<and> distinct (map fst (parseStyleString s))"
proof -
  have "clean_map (parseStyleString s)" by (rule parse_clean)
  then have "distinct (map fst (parseStyleString s))" by (simp add: clean_map_def)
  moreover have "map_of (parseStyleString s) k = spec_parse s k"
    using fold_js_set_spec[OF assms, of "[]" "spec_declarations s"]
    by (simp add: parse_decls spec_parse_def)
  ultimately show ?thesis by simp
qed

theorem parseStyleString_refines_witness:
  "map_of (parseStyleString (''color:'' @ [CHR 0xA0, CHR 0x09] @ ''red ; a: b:c;; :x; font-size : 12pt''))
      ''color'' = Some ''red''
   \<and> map_of (parseStyleString (''color:'' @ [CHR 0xA0, CHR 0x09] @ ''red ; a: b:c;; :x; font-size : 12pt''))
      ''a'' = Some ''b''
   \<and> map_of (parseStyleString (''color:'' @ [CHR 0xA0, CHR 0x09] @ ''red ; a: b:c;; :x; font-size : 12pt''))
      ''font-size'' = Some ''12pt''
   \<and> map_of (parseStyleString (''color:'' @ [CHR 0xA0, CHR 0x09] @ ''red ; a: b:c;; :x; font-size : 12pt''))
      ''x'' = None"
proof -
  let ?s = "''color:'' @ [CHR 0xA0, CHR 0x09] @ ''red ; a: b:c;; :x; font-size : 12pt''"
  have "spec_parse ?s ''color'' = Some ''red''" and "spec_parse ?s ''a'' = Some ''b''"
    and "spec_parse ?s ''font-size'' = Some ''12pt''" and "spec_parse ?s ''x'' = None"
    by code_simp+
  then show ?thesis
    using parseStyleString_refines [of "''color''" ?s] parseStyleString_refines [of "''a''" ?s]
      parseStyleString_refines [of "''font-size''" ?s] parseStyleString_refines [of "''x''" ?s]
    by simp
qed

text \<open>
  Claim C3, as stated, fails: a property map is not always recovered from its
  serialization. A value that contains a colon comes back cut at that colon.
\<close>

theorem style_roundtrip_counterexample:
  "map_of (parseStyleString (serialize [(''background'', ''url(data:x)'')])) ''background''
     \<noteq> map_of [(''background'', ''url(data:x)'')] ''background''"
  by code_simp

text \<open>
  Claim C3, amended: for every property map \<open>m\<close> with distinct keys whose keys and values
  are non-empty, have no surrounding whitespace and contain neither \<open>;\<close> nor \<open>:\<close>, and
  that has no key \<open>__proto__\<close>, parsing the serialization of \<open>m\<close> yields the mapping
  \<open>m\<close> again. Every result of \<open>parseStyleString\<close> is such a map, so for every style string
  \<open>s\<close> the string \<open>mergeStyleStrings s {}\<close> parses to the same mapping as \<open>s\<close>; and for
  updates \<open>u\<close> that are such a map, the output of \<open>mergeStyleStrings s u\<close> parses to the
  mapping of \<open>s\<close> overwritten by \<open>u\<close>.
\<close>

theorem style_roundtrip:
  "(clean_map m \<longrightarrow> map_of (parseStyleString (serialize m)) = map_of m)
   \<and> clean_map (parseStyleString s)
   \<and> map_of (parseStyleString (mergeStyleStrings s [])) = map_of (parseStyleString s)
   \<and> (clean_map u \<longrightarrow>
        map_of (parseStyleString (mergeStyleStrings s u)) = map_of (parseStyleString s) ++ map_of u)"
proof -
  have m0: "map_of (parseStyleString (mergeStyleStrings s [])) = map_of (parseStyleString s)"
    by (simp add: mergeStyleStrings_def parse_serialize parse_clean)
  have mu: "map_of (parseStyleString (mergeStyleStrings s u)) = map_of (parseStyleString s) ++ map_of u"
    if u: "clean_map u"
  proof -
    from u have 1: "list_all (\<lambda>(k, v). clean_text k \<and> clean_text v) u"
      and 2: "distinct (map fst u)" and 3: "list_all (\<lambda>(k, v). k \<noteq> ''__proto__'') u"
      by (auto simp: clean_map_def list_all_iff)
    have "clean_map (foldl (\<lambda>merged (key, value). js_set merged key value) (parseStyleString s) u)"
      by (rule fold_js_set_clean[OF parse_clean 1])
    then show ?thesis
      by (simp add: mergeStyleStrings_def parse_serialize map_of_fold_js_set[OF 2 3])
  qed
  show ?thesis
    using parse_serialize parse_clean m0 mu by blast
qed

theorem style_roundtrip_witness:
  "clean_map [(''color'', ''red''), (''font-size'', ''12px'')]
   \<and> map_of (parseStyleString (serialize [(''color'', ''red''), (''font-size'', ''12px'')]))
       = map_of [(''color'', ''red''), (''font-size'', ''12px'')]
   \<and> clean_map [(''color'', ''blue'')]
   \<and> map_of (parseStyleString (mergeStyleStrings ''color: red; font-weight: bold''
         [(''color'', ''blue'')]))
       = map_of (parseStyleString ''color: red; font-weight: bold'') ++ map_of [(''color'', ''blue'')]"
proof -
  have 1: "clean_map [(''color'', ''red''), (''font-size'', ''12px'')]"
    by (simp add: clean_map_def clean_text_def is_ws_def)
  have 2: "clean_map [(''color'', ''blue'')]"
    by (simp add: clean_map_def clean_text_def is_ws_def)
  show ?thesis
    using 1 2
      style_roundtrip [of "[(''color'', ''red''), (''font-size'', ''12px'')]"
        "''color: red; font-weight: bold''" "[(''color'', ''blue'')]"]
    by blast
qed

text \<open>
  Claim C7, as stated, fails for negative values: \<open>Math.round\<close> sends a tie to the larger
  integer, so \<open>-0.125 * 100 = -12.5\<close> rounds to \<open>-12\<close>, where rounding half away from
  zero gives \<open>-13\<close>. Every step is exact up to the final division.
\<close>

theorem toFixedNumber_negative_tie_counterexample:
  "toFixedNumber (Fin (- 1 / 8)) = Some (num_div (Fin (- 12)) (Fin 100))
   \<and> round_half_away (- 1 / 8 * 100) = - 13
   \<and> num_div (Fin (- 12)) (Fin 100) \<noteq> num_div (Fin (- 13)) (Fin 100)"
proof -
  have "fl (of_int (- 25) * pow2 (- 1)) = Fin (of_int (- 25) * pow2 (- 1))"
    by (rule fl_representable) (simp_all add: pow2_def)
  then have 1: "fl (- (25 / 2)) = Fin (- (25 / 2))" by (simp add: pow2_def)
  have 2: "toFixedNumber (Fin (- 1 / 8)) = Some (num_div (Fin (- 12)) (Fin 100))"
    by (simp add: toFixedNumber_Fin 1)
  have 3: "round_half_away (- 1 / 8 * 100) = - 13"
    by (simp add: round_half_away_def)
  have "fl (- 12 / 100) \<noteq> fl (- 13 / 100)"
    by (rule fl_near_distinct) simp_all
  then have 4: "num_div (Fin (- 12)) (Fin 100) \<noteq> num_div (Fin (- 13)) (Fin 100)" by simp
  from 2 3 4 show ?thesis by blast
qed

text \<open>
  Claim C7, amended: for every finite \<open>v\<close>, \<open>toFixedNumber\<close> rounds the double product
  \<open>w = v * 100\<close> with \<open>Math.round\<close> and divides by 100. The integer is \<open>w\<close> rounded half
  away from zero, \<open>sign(w) * floor(|w| + 1/2)\<close>, whenever \<open>v \<ge> 0\<close> or \<open>w\<close> is not exactly
  halfway between two integers; a negative \<open>w\<close> exactly halfway is rounded to the larger
  integer (toward zero) instead. When the product overflows, the result is that infinity.
\<close>

theorem toFixedNumber_rounding:
  "toFixedNumber (Fin v) =
     (case num_mul (Fin v) (Fin 100) of
        Fin w \<Rightarrow> Some (num_div (Fin (of_int (if w < 0 \<and> w - of_int \<lfloor>w\<rfloor> = 1 / 2
                                     then round_half_away w + 1 else round_half_away w))) (Fin 100))
      | PosInf \<Rightarrow> Some PosInf
      | NegInf \<Rightarrow> Some NegInf
      | NaN \<Rightarrow> Some NaN)
   \<and> (0 \<le> v \<and> num_mul (Fin v) (Fin 100) = Fin w \<longrightarrow> 0 \<le> w)"
proof -
  have "0 \<le> w" if "0 \<le> v" and "num_mul (Fin v) (Fin 100) = Fin w"
    using that fl_nonneg[of "v * 100" w] by simp
  then show ?thesis using toFixedNumber_cases[of v] by blast
qed

theorem toFixedNumber_rounding_witness:
  "(0::rat) \<le> 1 / 8 \<and> num_mul (Fin (1 / 8)) (Fin 100) = Fin (25 / 2)
   \<and> toFixedNumber (Fin (1 / 8)) = Some (num_div (Fin 13) (Fin 100))"
proof -
  have "fl (of_int 25 * pow2 (- 1)) = Fin (of_int 25 * pow2 (- 1))"
    by (rule fl_representable) (simp_all add: pow2_def)
  then have 1: "num_mul (Fin (1 / 8)) (Fin 100) = Fin (25 / 2)" by (simp add: pow2_def)
  have 2: "round_half_away (25 / 2) = 13" by (simp add: round_half_away_def)
  show ?thesis
    using toFixedNumber_rounding [of "1 / 8" "25 / 2"] 1 2 by simp
qed

text \<open>
  Claim C1, as stated, fails for large finite sizes: for \<open>p = 2^1023\<close> the product
  \<open>p * PX_PER_POINT\<close> is finite, but its product with 100 inside \<open>toFixedNumber\<close>
  overflows, \<open>ptToPx\<close> returns \<open>Infinity\<close>, and \<open>pxToPt\<close> returns \<open>null\<close>: the pair
  yields no value at all.
\<close>

theorem roundTrip_overflow_counterexample:
  "roundTrip (Fin (2 ^ 1023)) = None"
proof -
  have "fl (of_int 6004799503160661 * pow2 971) = Fin (of_int 6004799503160661 * pow2 971)"
    by (rule fl_representable) (simp_all add: pow2_def)
  then have 1: "num_mul (Fin (2 ^ 1023)) PX_PER_POINT = Fin (6004799503160661 * 2 ^ 971)"
    by (simp add: PX_PER_POINT_eq pow2_def)
  have 2: "fl (6004799503160661 * 2 ^ 971 * 100) = PosInf"
    by (rule fl_overflow) simp
  have "ptToPx (Fin (2 ^ 1023)) = Some PosInf"
    by (simp only: ptToPx_def 1 toFixedNumber_Fin isFinite.simps 2 Math_round.simps
        num_div.simps inf_of_sign_def not_True_eq_False if_False) simp
  then show ?thesis
    by (simp add: roundTrip_def pxToPt_opt_def pxToPt_def)
qed

text \<open>
  Claim C1, amended: for every point size \<open>0 \<le> p \<le> 2^30\<close>, \<open>pxToPt(ptToPx(p))\<close> is a
  finite value \<open>r\<close> that differs from \<open>p\<close> by at most 0.01, and applying the conversion
  pair twice more to \<open>r\<close> returns \<open>r\<close> itself, so the distance from \<open>p\<close> does not grow.
  The proof accounts for the rounding of every double operation.
\<close>

theorem roundTrip_drift:
  assumes "0 \<le> p" and "p \<le> 2 ^ 30"
  shows "\<exists>r. roundTrip (Fin p) = Some (Fin r) \<and> \<bar>r - p\<bar> \<le> 1 / 100
             \<and> roundTrip_opt (roundTrip (Fin r)) = Some (Fin r)"
proof -
  from assms have "\<bar>p\<bar> \<le> 1073741824" by simp
  from roundTrip_bound[OF this] obtain r where "roundTrip (Fin p) = Some (Fin r)"
    and "\<bar>r - p\<bar> \<le> 1 / 100" and "roundTrip (Fin r) = Some (Fin r)" by auto
  then show ?thesis by (auto simp: roundTrip_opt_def)
qed

theorem roundTrip_drift_witness:
  "(0::rat) \<le> 12 \<and> (12::rat) \<le> 2 ^ 30
   \<and> (\<exists>r. roundTrip (Fin 12) = Some (Fin r) \<and> \<bar>r - 12\<bar> \<le> 1 / 100
           \<and> roundTrip_opt (roundTrip (Fin r)) = Some (Fin r))"
  using roundTrip_drift [of 12] by simp

section \<open>Properties of the font resolution\<close>

lemma filter_seen_first: "filter_seen [] (part # parts) = part # filter_seen [toLowerCase part] parts"
  by (simp add: Let_def)

lemma filter_seen_distinct:
  "distinct (map toLowerCase (filter_seen seen parts))
   \<and> set (map toLowerCase (filter_seen seen parts)) \<inter> set seen = {}"
proof (induction parts arbitrary: seen)
  case Nil
  then show ?case by simp
next
  case (Cons part parts)
  from Cons.IH[of seen] Cons.IH[of "toLowerCase part # seen"] show ?case
    by (auto simp: Let_def)
qed

lemma buildFontFamily_distinct_entries:
  assumes "buildFontFamily_parts name = Inr parts"
  shows "distinct (map toLowerCase parts)"
proof -
  from assms have "\<exists>xs. parts = filter_seen [] xs"
    unfolding buildFontFamily_parts_def Let_def
    by (simp only: sum.inject sum.distinct split: option.splits if_splits) blast+
  with filter_seen_distinct[of "[]"] show ?thesis by blast
qed

lemma buildFontFamily_first:
  assumes "buildFontFamily_parts name = Inr parts"
  shows "\<exists>primary. primary = (if normalizeFontName name = [] then ''Segoe UI'' else normalizeFontName name)
           \<and> hd parts = (if list_ex is_ws primary then quoted primary else primary)"
  using assms
  by (auto simp: buildFontFamily_parts_def Let_def filter_seen_first split: option.splits if_splits)

text \<open>
  Claim C8 holds of the first entry (lemma \<open>buildFontFamily_first\<close>), and no two entries
  are equal as written, case ignored (lemma \<open>buildFontFamily_distinct_entries\<close>), but the
  list can name a family twice. The filter compares the entries with their quotes: the
  requested name \<open>Inter\<close> has no whitespace and is written without quotes, the fallback
  \<open>"Inter"\<close> is written with quotes, so both are kept although they name the same family.
\<close>

theorem buildFontFamily_Inter_duplicate:
  "buildFontFamily_parts ''Inter''
     = Inr [''Inter'', quoted ''Inter'', quoted ''Noto Sans'', quoted ''Helvetica Neue'',
            ''Arial'', ''sans-serif'']
   \<and> buildFontFamily ''Inter''
     = Inr (''Inter, '' @ quoted ''Inter'' @ '', '' @ quoted ''Noto Sans'' @ '', ''
            @ quoted ''Helvetica Neue'' @ '', Arial, sans-serif'')
   \<and> map family_name [''Inter'', quoted ''Inter'', quoted ''Noto Sans'', quoted ''Helvetica Neue'',
            ''Arial'', ''sans-serif'']
     = [''inter'', ''inter'', ''noto sans'', ''helvetica neue'', ''arial'', ''sans-serif'']"
  by code_simp

text \<open>
  Claim C10, as stated, fails for a style string that declares \<open>font-size\<close> more than once:
  the two decoders do not read the same declaration. In
  \<open>font-size: 11px; font-size: large\<close> the font-size value of the string is \<open>large\<close>,
  which has no number; \<open>cssToExcelStyle\<close> yields no size field, but \<open>cssToXlsxStyle\<close>
  yields the size 8.25 of the earlier declaration.
\<close>

theorem font_size_duplicate_counterexample:
  "js_get (parseStyleString ''font-size: 11px; font-size: large'') ''font-size'' = Some ''large''
   \<and> parseFloat ''large'' = NaN
   \<and> excel_size (cssToExcelStyle (Some ''font-size: 11px; font-size: large'')) = None
   \<and> xlsx_size (cssToXlsxStyle ''font-size: 11px; font-size: large'') = Some (Fin (33 / 4))"
proof -
  have v: "spec_values ''font-size'' ''font-size: 11px; font-size: large'' = [''11px'', ''large'']"
    by code_simp
  have "js_get (parseStyleString ''font-size: 11px; font-size: large'') ''font-size''
          = Some ''large''"
    by code_simp
  moreover have "excel_size (cssToExcelStyle (Some ''font-size: 11px; font-size: large'')) = None"
    by (simp add: excel_size_values v decode_values)
  moreover have "xlsx_size (cssToXlsxStyle ''font-size: 11px; font-size: large'')
                   = Some (Fin (33 / 4))"
    by (simp add: xlsx_size_values v decode_values last_size_def)
  ultimately show ?thesis by (simp add: parseFloat_values)
qed

text \<open>
  Claim C10, amended: in both decoders the value \<open>v\<close> of a font-size declaration stands for
  the size \<open>decode_font_size v\<close>: when \<open>v\<close> ends with \<open>pt\<close> in any letter case, the number
  at its head is taken as points and converted to pixels before the pixels-to-points
  conversion; any other value is taken as pixels; a value without a number yields no size
  rather than an error. For every style string \<open>cssToExcelStyle\<close> gives the font the size of
  the last font-size declaration, and \<open>cssToXlsxStyle\<close> the size of the last font-size
  declaration that has one; for a style string with one font-size declaration the two
  agree. The size of a value with the number \<open>n\<close>, \<open>n\<close> up to \<open>2^30\<close> in magnitude, is
  within 0.01 of \<open>n\<close> for a value in points and within 0.01 of \<open>3n/4\<close> for a value in
  pixels, so \<open>font-size: 12pt\<close> decodes to a 12-point font.
\<close>

theorem font_size_decoding:
  "xlsx_size (cssToXlsxStyle css)
     = last_size (map decode_font_size (spec_values ''font-size'' css))
   \<and> excel_size (cssToExcelStyle (Some css))
     = (if spec_values ''font-size'' css = [] then None
        else decode_font_size (last (spec_values ''font-size'' css)))
   \<and> (spec_values ''font-size'' css = [v] \<longrightarrow>
        xlsx_size (cssToXlsxStyle css) = decode_font_size v
        \<and> excel_size (cssToExcelStyle (Some css)) = decode_font_size v)
   \<and> (parseFloat v = Fin n \<and> \<bar>n\<bar> \<le> 2 ^ 30 \<longrightarrow>
        (\<exists>r. decode_font_size v = Some (Fin r)
             \<and> \<bar>r - (if has_pt_suffix v then n else n * (3 / 4))\<bar> \<le> 1 / 100))
   \<and> (parseFloat v = NaN \<longrightarrow> decode_font_size v = None)"
proof -
  have single: "xlsx_size (cssToXlsxStyle css) = decode_font_size v
        \<and> excel_size (cssToExcelStyle (Some css)) = decode_font_size v"
    if "spec_values ''font-size'' css = [v]"
    using that by (cases "decode_font_size v") (simp_all add: xlsx_size_values excel_size_values last_size_def)
  have bound: "\<exists>r. decode_font_size v = Some (Fin r)
             \<and> \<bar>r - (if has_pt_suffix v then n else n * (3 / 4))\<bar> \<le> 1 / 100"
    if "parseFloat v = Fin n \<and> \<bar>n\<bar> \<le> 2 ^ 30"
  proof -
    from that have "parseFloat v = Fin n" and "\<bar>n\<bar> \<le> 1073741824" by simp_all
    then show ?thesis by (rule decode_bound)
  qed
  have none: "decode_font_size v = None" if "parseFloat v = NaN"
    using that by (simp add: decode_font_size_def)
  from xlsx_size_values excel_size_values single bound none show ?thesis by blast
qed

theorem font_size_decoding_witness:
  "xlsx_size (cssToXlsxStyle ''font-size: 24pt'') = Some (Fin 24)
   \<and> excel_size (cssToExcelStyle (Some ''font-size: 24pt'')) = Some (Fin 24)
   \<and> xlsx_size (cssToXlsxStyle ''color: red; font-size: 12PT'') = Some (Fin 12)
   \<and> excel_size (cssToExcelStyle (Some ''color: red; font-size: 12PT'')) = Some (Fin 12)
   \<and> xlsx_size (cssToXlsxStyle ''font-size: 16px'') = Some (Fin 12)
   \<and> excel_size (cssToExcelStyle (Some ''font-size: 16px'')) = Some (Fin 12)
   \<and> xlsx_size (cssToXlsxStyle ''font-size: 10'') = Some (Fin (15 / 2))
   \<and> excel_size (cssToExcelStyle (Some ''font-size: 10'')) = Some (Fin (15 / 2))
   \<and> xlsx_size (cssToXlsxStyle ''font-size : large'') = None
   \<and> excel_size (cssToExcelStyle (Some ''font-size : large'')) = None
   \<and> (\<exists>r. decode_font_size ''24pt'' = Some (Fin r) \<and> \<bar>r - 24\<bar> \<le> 1 / 100)"
proof -
  have v: "spec_values ''font-size'' ''font-size: 24pt'' = [''24pt'']"
    "spec_values ''font-size'' ''color: red; font-size: 12PT'' = [''12PT'']"
    "spec_values ''font-size'' ''font-size: 16px'' = [''16px'']"
    "spec_values ''font-size'' ''font-size: 10'' = [''10'']"
    "spec_values ''font-size'' ''font-size : large'' = [''large'']"
    by code_simp+
  have pt: "has_pt_suffix ''24pt''" by (simp add: has_pt_suffix_def)
  have n: "parseFloat ''24pt'' = Fin 24 \<and> \<bar>24 :: rat\<bar> \<le> 2 ^ 30"
    by (simp add: parseFloat_values)
  note inst = font_size_decoding [of "''font-size: 24pt''" "''24pt''" 24]
  from inst v(1) have s1: "xlsx_size (cssToXlsxStyle ''font-size: 24pt'') = decode_font_size ''24pt''
      \<and> excel_size (cssToExcelStyle (Some ''font-size: 24pt'')) = decode_font_size ''24pt''"
    by blast
  from inst n have "\<exists>r. decode_font_size ''24pt'' = Some (Fin r)
      \<and> \<bar>r - (if has_pt_suffix ''24pt'' then 24 else 24 * (3 / 4))\<bar> \<le> 1 / 100"
    by blast
  with pt have b: "\<exists>r. decode_font_size ''24pt'' = Some (Fin r) \<and> \<bar>r - 24\<bar> \<le> 1 / 100"
    by simp
  from font_size_decoding [of "''color: red; font-size: 12PT''" "''12PT''" 0] v(2)
  have s2: "xlsx_size (cssToXlsxStyle ''color: red; font-size: 12PT'') = decode_font_size ''12PT''
      \<and> excel_size (cssToExcelStyle (Some ''color: red; font-size: 12PT'')) = decode_font_size ''12PT''"
    by blast
  from font_size_decoding [of "''font-size: 16px''" "''16px''" 0] v(3)
  have s3: "xlsx_size (cssToXlsxStyle ''font-size: 16px'') = decode_font_size ''16px''
      \<and> excel_size (cssToExcelStyle (Some ''font-size: 16px'')) = decode_font_size ''16px''"
    by blast
  from font_size_decoding [of "''font-size: 10''" "''10''" 0] v(4)
  have s4: "xlsx_size (cssToXlsxStyle ''font-size: 10'') = decode_font_size ''10''
      \<and> excel_size (cssToExcelStyle (Some ''font-size: 10'')) = decode_font_size ''10''"
    by blast
  from font_size_decoding [of "''font-size : large''" "''large''" 0] v(5)
  have s5: "xlsx_size (cssToXlsxStyle ''font-size : large'') = decode_font_size ''large''
      \<and> excel_size (cssToExcelStyle (Some ''font-size : large'')) = decode_font_size ''large''"
    by blast
  from s1 s2 s3 s4 s5 b show ?thesis
    by (simp only: decode_values)
qed

lemma cssColorToXlsx_by_length:
  "cssColorToXlsx color =
     (let t = trim color; n = (if startsWith t ''#'' then slice_from 1 t else t) in
      if color = [] then None
      else if length n = 3
        then Some \<lparr> rgb = Some (''FF'' @ toUpperCase (double_digits n)), RGB = None \<rparr>
      else if length n = 6 then Some \<lparr> rgb = Some (''FF'' @ toUpperCase n), RGB = None \<rparr>
      else None)"
  by (simp add: cssColorToXlsx_def Let_def double_digits_def length_doubled)

text \<open>
  Claim C6 holds of the xlsx-object variant (lemma \<open>cssColorToXlsx_by_length\<close>): three
  digits are doubled, six are kept, any other length gives \<open>null\<close>, and \<open>FF\<close> is
  prefixed. The ExcelJS variant inside \<open>cssToExcelStyle\<close> does not do this: it pads the
  digits on the left with zeros up to six and never rejects a length. The 3-digit colour
  \<open>#abc\<close> becomes \<open>FF000ABC\<close> instead of \<open>FFAABBCC\<close>, and the 4-digit \<open>#abcd\<close> becomes
  \<open>FF00ABCD\<close> instead of no colour.
\<close>

theorem cssToExcelStyle_color_padding:
  "cssColorToXlsx ''#abc'' = Some \<lparr> rgb = Some ''FFAABBCC'', RGB = None \<rparr>
   \<and> font (cssToExcelStyle (Some ''color: #abc''))
       = Some \<lparr> ef_color_argb = Some ''FF000ABC'', ef_name = None, ef_size = None,
                 ef_bold = None, ef_italic = None \<rparr>
   \<and> cssColorToXlsx ''#abcd'' = None
   \<and> font (cssToExcelStyle (Some ''color: #abcd''))
       = Some \<lparr> ef_color_argb = Some ''FF00ABCD'', ef_name = None, ef_size = None,
                 ef_bold = None, ef_italic = None \<rparr>"
  by code_simp

text \<open>
  Claim C5, as stated, fails: the writer tests the coerced number with \<open>Number.isNaN\<close>, not
  for finiteness, so the text \<open>Infinity\<close> is stored as the number \<open>Infinity\<close>, which is
  not a finite number.
\<close>

theorem writer_infinity_counterexample:
  "\<not> startsWith (cellStr_of (\<lambda>n. []) (GStr ''Infinity'')) ''=''
   \<and> dataToExcelBuffer (\<lambda>n. []) (\<lambda>r c. []) [[GStr ''Infinity'']] []
       = [\<lparr> wc_row = 1, wc_col = 1, wc_value = Plain (GNum PosInf),
             wc_font = None, wc_fill = None \<rparr>]
   \<and> \<not> isFinite PosInf"
  by (simp add: dataToExcelBuffer_def write_cell_def written_value_of_def cellStr_of_def
      String_of_def ToNumber_def StringToNumber_values startsWith_def trim_def is_ws_def
      js_get_def cssToExcelStyle_def truthy_str_def)

text \<open>
  Claim C5, amended: for every grid cell whose string form does not start with \<open>=\<close>, the
  writer stores at the position of the cell the value \<open>stored_value\<close> gives. For a cell that
  holds a string it stores the number \<open>Number(cellValue)\<close> if and only if the string,
  stripped of the whitespace around it, is a numeric literal, whose value may be finite or
  infinite (an optional sign before \<open>Infinity\<close> or before digits with an optional point and
  an optional exponent, or \<open>0x\<close>, \<open>0o\<close>, \<open>0b\<close> before digits of that base); otherwise it
  stores the string unchanged, the empty string included. A number, \<open>null\<close> and
  \<open>undefined\<close> are stored unchanged, and a boolean as the number 1 or 0. The text \<open>42\<close> is
  written as the number 42 and \<open>42abc\<close> stays a string.
\<close>

theorem writer_numeric_coercion:
  assumes "r < length data" and "c < length (data ! r)"
    and "\<not> startsWith (cellStr_of num_str (data ! r ! c)) ''=''"
  shows "(\<exists>cell \<in> set (dataToExcelBuffer num_str encode_cell data styles).
            wc_row cell = r + 1 \<and> wc_col cell = c + 1)
         \<and> (\<forall>cell \<in> set (dataToExcelBuffer num_str encode_cell data styles).
              wc_row cell = r + 1 \<and> wc_col cell = c + 1
              \<longrightarrow> wc_value cell = stored_value (data ! r ! c))"
proof -
  let ?cell = "write_cell num_str encode_cell styles r c (data ! r ! c)"
  have "?cell \<in> set (dataToExcelBuffer num_str encode_cell data styles)"
    using assms(1,2) by (rule write_cell_mem)
  moreover have "wc_row ?cell = r + 1 \<and> wc_col ?cell = c + 1"
    by (simp add: write_cell_def Let_def)
  ultimately have 1: "\<exists>cell \<in> set (dataToExcelBuffer num_str encode_cell data styles).
            wc_row cell = r + 1 \<and> wc_col cell = c + 1" by blast
  have 2: "wc_value cell = stored_value (data ! r ! c)"
    if m: "cell \<in> set (dataToExcelBuffer num_str encode_cell data styles)"
      and p: "wc_row cell = r + 1 \<and> wc_col cell = c + 1" for cell
  proof -
    from written_cells_only[OF m] obtain r' c'
      where "cell = write_cell num_str encode_cell styles r' c' (data ! r' ! c')" by blast
    with p have "cell = ?cell" by (simp add: write_cell_def Let_def)
    then show ?thesis
      using written_value_stored[OF assms(3)] by (simp add: write_cell_def Let_def)
  qed
  from 1 2 show ?thesis by blast
qed

theorem writer_numeric_coercion_witness:
  "(\<exists>cell \<in> set (dataToExcelBuffer (\<lambda>n. []) (\<lambda>r c. [])
        [[GStr ''42'', GStr ''42abc'', GStr []], [GStr (CHR 0xA0 # ''42 ''), GBool True]] []).
      wc_row cell = 1 \<and> wc_col cell = 1 \<and> wc_value cell = Plain (GNum (Fin 42)))
   \<and> (\<exists>cell \<in> set (dataToExcelBuffer (\<lambda>n. []) (\<lambda>r c. [])
        [[GStr ''42'', GStr ''42abc'', GStr []], [GStr (CHR 0xA0 # ''42 ''), GBool True]] []).
      wc_row cell = 1 \<and> wc_col cell = 2 \<and> wc_value cell = Plain (GStr ''42abc''))
   \<and> (\<exists>cell \<in> set (dataToExcelBuffer (\<lambda>n. []) (\<lambda>r c. [])
        [[GStr ''42'', GStr ''42abc'', GStr []], [GStr (CHR 0xA0 # ''42 ''), GBool True]] []).
      wc_row cell = 1 \<and> wc_col cell = 3 \<and> wc_value cell = Plain (GStr []))
   \<and> (\<exists>cell \<in> set (dataToExcelBuffer (\<lambda>n. []) (\<lambda>r c. [])
        [[GStr ''42'', GStr ''42abc'', GStr []], [GStr (CHR 0xA0 # ''42 ''), GBool True]] []).
      wc_row cell = 2 \<and> wc_col cell = 1 \<and> wc_value cell = Plain (GNum (Fin 42)))
   \<and> (\<exists>cell \<in> set (dataToExcelBuffer (\<lambda>n. []) (\<lambda>r c. [])
        [[GStr ''42'', GStr ''42abc'', GStr []], [GStr (CHR 0xA0 # ''42 ''), GBool True]] []).
      wc_row cell = 2 \<and> wc_col cell = 2 \<and> wc_value cell = Plain (GNum (Fin 1)))"
proof -
  let ?data = "[[GStr ''42'', GStr ''42abc'', GStr []], [GStr (CHR 0xA0 # ''42 ''), GBool True]]"
  let ?out = "dataToExcelBuffer (\<lambda>n. []) (\<lambda>r c. []) ?data []"
  have s: "\<not> startsWith (cellStr_of (\<lambda>n. []) (?data ! 0 ! 0)) ''=''"
    "\<not> startsWith (cellStr_of (\<lambda>n. []) (?data ! 0 ! 1)) ''=''"
    "\<not> startsWith (cellStr_of (\<lambda>n. []) (?data ! 0 ! 2)) ''=''"
    "\<not> startsWith (cellStr_of (\<lambda>n. []) (?data ! 1 ! 0)) ''=''"
    "\<not> startsWith (cellStr_of (\<lambda>n. []) (?data ! 1 ! 1)) ''=''"
    by (simp_all add: cellStr_of_def String_of_def startsWith_def)
  have l: "is_numeric_literal (spec_strip ''42'')" "\<not> is_numeric_literal (spec_strip ''42abc'')"
    "\<not> is_numeric_literal (spec_strip [])" "is_numeric_literal (spec_strip (CHR 0xA0 # ''42 ''))"
    by code_simp+
  have v: "stored_value (?data ! 0 ! 0) = Plain (GNum (Fin 42))"
    "stored_value (?data ! 0 ! 1) = Plain (GStr ''42abc'')"
    "stored_value (?data ! 0 ! 2) = Plain (GStr [])"
    "stored_value (?data ! 1 ! 0) = Plain (GNum (Fin 42))"
    "stored_value (?data ! 1 ! 1) = Plain (GNum (Fin 1))"
    using l by (simp_all add: stored_value_def StringToNumber_values)
  have a: "\<exists>cell \<in> set ?out. wc_row cell = 1 \<and> wc_col cell = 1
             \<and> wc_value cell = Plain (GNum (Fin 42))"
    using writer_numeric_coercion [of 0 ?data 0 "\<lambda>n. []" "\<lambda>r c. []" "[]", OF _ _ s(1)] v(1)
    by (simp add: eval_nat_numeral) blast
  have b: "\<exists>cell \<in> set ?out. wc_row cell = 1 \<and> wc_col cell = 2
             \<and> wc_value cell = Plain (GStr ''42abc'')"
    using writer_numeric_coercion [of 0 ?data 1 "\<lambda>n. []" "\<lambda>r c. []" "[]", OF _ _ s(2)] v(2)
    by (simp add: eval_nat_numeral) blast
  have c: "\<exists>cell \<in> set ?out. wc_row cell = 1 \<and> wc_col cell = 3
             \<and> wc_value cell = Plain (GStr [])"
    using writer_numeric_coercion [of 0 ?data 2 "\<lambda>n. []" "\<lambda>r c. []" "[]", OF _ _ s(3)] v(3)
    by (simp add: eval_nat_numeral) blast
  have d: "\<exists>cell \<in> set ?out. wc_row cell = 2 \<and> wc_col cell = 1
             \<and> wc_value cell = Plain (GNum (Fin 42))"
    using writer_numeric_coercion [of 1 ?data 0 "\<lambda>n. []" "\<lambda>r c. []" "[]", OF _ _ s(4)] v(4)
    by (simp add: eval_nat_numeral) blast
  have e: "\<exists>cell \<in> set ?out. wc_row cell = 2 \<and> wc_col cell = 2
             \<and> wc_value cell = Plain (GNum (Fin 1))"
    using writer_numeric_coercion [of 1 ?data 1 "\<lambda>n. []" "\<lambda>r c. []" "[]", OF _ _ s(5)] v(5)
    by (simp add: eval_nat_numeral) blast
  from a b c d e show ?thesis by blast
qed

text \<open>
  Claim C4, as stated, fails: the reader does not return a grid for every loaded workbook.
  For a cell whose font is named \<open>constructor\<close>, \<open>buildFontFamily\<close> reads the property of
  that name that \<open>FONT_FALLBACKS\<close> inherits, spreads it and throws; and in a workbook without
  a sheet the reader throws on the row count of \<open>undefined\<close>.
\<close>

theorem extractDataAndStyles_throws_counterexample:
  "extractDataAndStyles (\<lambda>n. []) (\<lambda>r c. [])
      [[[Some (empty_cell\<lparr> c_value := JStr ''x'',
                c_font := Some \<lparr> cf_color_argb = None, cf_name = Some ''constructor'',
                                 cf_size = None, cf_bold = False, cf_italic = False \<rparr> \<rparr>)]]]
     = Inl TypeError
   \<and> extractDataAndStyles (\<lambda>n. []) (\<lambda>r c. []) [] = Inl TypeError"
  by code_simp

text \<open>
  Claim C4, amended: for every loaded workbook with a first sheet \<open>ws\<close> in which every
  populated cell is readable (its font name, stripped of quotes and whitespace, is not the
  name of a property that every object inherits, and its rich text has no \<open>null\<close> or
  \<open>undefined\<close> run), the reader returns a grid with exactly \<open>max(declared row count, 1)\<close>
  rows, every row having exactly \<open>max(largest cell count of a row, 1)\<close> columns; every
  populated cell of the sheet lies inside the grid and its entry is its display value; no
  entry is \<open>null\<close> or \<open>undefined\<close>, a missing or \<open>null\<close> display value being replaced by
  the empty string.
\<close>

theorem extractDataAndStyles_grid:
  assumes "\<forall>row \<in> set ws. \<forall>cell. Some cell \<in> set row \<longrightarrow> readable_cell cell"
  shows "\<exists>data styles.
           extractDataAndStyles num_str encode_cell (ws # others) = Inr (data, styles)
         \<and> length data = max (length ws) 1
         \<and> (\<forall>row \<in> set data. length row = max (max_cells ws) 1)
         \<and> (\<forall>r c cell. r < length ws \<and> c < length (ws ! r) \<and> ws ! r ! c = Some cell
               \<longrightarrow> r < length data \<and> c < length (data ! r)
                   \<and> (\<exists>d. display_value num_str cell = Inr d
                           \<and> data ! r ! c = (if is_nullish d then JStr [] else d)))
         \<and> (\<forall>row \<in> set data. \<forall>v \<in> set row. v \<noteq> JUndefined \<and> v \<noteq> JNull)
         \<and> (\<forall>r < length data. \<forall>c < length (data ! r).
               \<exists>d. display_value num_str (cell_at ws r c) = Inr d
                   \<and> data ! r ! c = (if is_nullish d then JStr [] else d))"
proof -
  define rows where "rows = max (length ws) 1"
  define cols where "cols = max (max_cell_count ws) 1"
  have "\<exists>x. read_cell num_str (cell_at ws r c) = Inr x" for r c
  proof (cases "r < length ws \<and> c < length (ws ! r)")
    case True
    show ?thesis
    proof (cases "ws ! r ! c")
      case None
      with True show ?thesis by (simp add: cell_at_def read_empty_cell)
    next
      case (Some cell)
      with True have "Some cell \<in> set (ws ! r)" "ws ! r \<in> set ws"
        by (metis nth_mem)+
      with assms have "readable_cell cell" by blast
      from read_cell_total[OF this] Some True show ?thesis by (simp add: cell_at_def)
    qed
  next
    case False
    then show ?thesis by (auto simp: cell_at_def read_empty_cell)
  qed
  then have "\<exists>y. read_rows num_str encode_cell ws [0..<rows] [0..<cols] [] = Inr y"
    by (intro read_rows_total) simp
  then obtain data styles
    where rr: "read_rows num_str encode_cell ws [0..<rows] [0..<cols] [] = Inr (data, styles)"
    by fastforce
  then have ex: "extractDataAndStyles num_str encode_cell (ws # others) = Inr (data, styles)"
    by (simp add: extractDataAndStyles_def rows_def cols_def Let_def)
  from read_rows_props[OF rr] have len: "length data = rows"
    and each: "\<And>i. i < rows \<Longrightarrow> length (data ! i) = cols"
    and entry: "\<And>i j. i < rows \<Longrightarrow> j < cols \<Longrightarrow>
        \<exists>d. display_value num_str (cell_at ws i j) = Inr d \<and> data ! i ! j = grid_entry d"
    by auto
  have 1: "length data = max (length ws) 1" using len by (simp add: rows_def)
  have 2: "\<forall>row \<in> set data. length row = max (max_cells ws) 1"
    using len each by (auto simp: in_set_conv_nth cols_def max_cell_count_Max)
  have 3: "r < length data \<and> c < length (data ! r)
           \<and> (\<exists>d. display_value num_str cell = Inr d
                   \<and> data ! r ! c = (if is_nullish d then JStr [] else d))"
    if "r < length ws \<and> c < length (ws ! r) \<and> ws ! r ! c = Some cell" for r c cell
  proof -
    from that have r: "r < rows" by (simp add: rows_def)
    from that max_cell_count_ge[of r ws] have c: "c < cols" by (simp add: cols_def)
    from that have "cell_at ws r c = cell" by (simp add: cell_at_def)
    with entry[OF r c] r c len each show ?thesis by (auto simp: grid_entry_def)
  qed
  have 4: "\<forall>row \<in> set data. \<forall>v \<in> set row. v \<noteq> JUndefined \<and> v \<noteq> JNull"
  proof (intro ballI)
    fix row v
    assume "row \<in> set data" and "v \<in> set row"
    then obtain i j where i: "i < rows" "row = data ! i" and j: "j < length row" "v = row ! j"
      using len by (auto simp: in_set_conv_nth)
    with each have "j < cols" by simp
    from entry[OF i(1) this] i j have "\<not> is_nullish v"
      by (auto simp: grid_entry_not_nullish)
    then show "v \<noteq> JUndefined \<and> v \<noteq> JNull" by (simp add: not_nullish_iff)
  qed
  have 5: "\<forall>r < length data. \<forall>c < length (data ! r).
           \<exists>d. display_value num_str (cell_at ws r c) = Inr d
               \<and> data ! r ! c = (if is_nullish d then JStr [] else d)"
    using len each entry by (auto simp: grid_entry_def)
  from ex 1 2 3 4 5 show ?thesis by blast
qed

theorem extractDataAndStyles_grid_witness:
  "(\<exists>data styles.
      extractDataAndStyles (\<lambda>n. []) (\<lambda>r c. [])
        [[[Some (empty_cell\<lparr> c_value := JStr ''x'',
                  c_font := Some \<lparr> cf_color_argb = None, cf_name = Some ''Calibri'',
                                   cf_size = None, cf_bold = True, cf_italic = False \<rparr> \<rparr>)],
          [None, Some (empty_cell\<lparr> c_value := JObject [(''result'', JNull)] \<rparr>)]]]
        = Inr (data, styles)
      \<and> length data = 2 \<and> length (data ! 0) = 2 \<and> length (data ! 1) = 2
      \<and> data ! 0 ! 0 = JStr ''x'' \<and> data ! 1 ! 1 = JStr [])
   \<and> extractDataAndStyles (\<lambda>n. []) (\<lambda>r c. []) [[]] = Inr ([[JStr []]], [])"
proof -
  let ?c1 = "empty_cell\<lparr> c_value := JStr ''x'',
                  c_font := Some \<lparr> cf_color_argb = None, cf_name = Some ''Calibri'',
                                   cf_size = None, cf_bold = True, cf_italic = False \<rparr> \<rparr>"
  let ?c2 = "empty_cell\<lparr> c_value := JObject [(''result'', JNull)] \<rparr>"
  let ?ws = "[[Some ?c1], [None, Some ?c2]]"
  have n: "normalizeFontName ''Calibri'' \<notin> set Object_prototype_keys" by code_simp
  have ok: "\<forall>row \<in> set ?ws. \<forall>cell. Some cell \<in> set row \<longrightarrow> readable_cell cell"
    using n by (auto simp: readable_cell_def empty_cell_def)
  have w: "max (length ?ws) 1 = 2" "max (max_cells ?ws) 1 = 2"
    by (simp_all add: max_cells_def)
  have d: "display_value (\<lambda>n. []) ?c1 = Inr (JStr ''x'')"
    "display_value (\<lambda>n. []) ?c2 = Inr JNull"
    by code_simp+
  have e: "extractDataAndStyles (\<lambda>n. []) (\<lambda>r c. []) [[]] = Inr ([[JStr []]], [])" by code_simp
  from extractDataAndStyles_grid [of ?ws "\<lambda>n. []" "\<lambda>r c. []" "[]", OF ok]
  obtain data styles
    where x: "extractDataAndStyles (\<lambda>n. []) (\<lambda>r c. []) [?ws] = Inr (data, styles)"
      and l: "length data = max (length ?ws) 1"
      and r: "\<forall>row \<in> set data. length row = max (max_cells ?ws) 1"
      and c: "\<forall>r c cell. r < length ?ws \<and> c < length (?ws ! r) \<and> ?ws ! r ! c = Some cell
               \<longrightarrow> r < length data \<and> c < length (data ! r)
                   \<and> (\<exists>d. display_value (\<lambda>n. []) cell = Inr d
                           \<and> data ! r ! c = (if is_nullish d then JStr [] else d))"
    by (elim exE conjE) blast
  from l w have l2: "length data = 2" by simp
  with r w have r2: "length (data ! 0) = 2" "length (data ! 1) = 2" by simp_all
  from c[rule_format, of 0 0 ?c1] d(1) have c1: "data ! 0 ! 0 = JStr ''x''" by simp
  from c[rule_format, of 1 1 ?c2] d(2) have c2: "data ! 1 ! 1 = JStr []" by simp
  from x l2 r2 c1 c2 e show ?thesis by blast
qed

end
